theory Spec2Isabelle
  imports Complex_Main "HOL-Library.Signed_Division"
begin

section \<open>Conventions of the embedding\<close>

text \<open>
  The games are TypeScript modules. JavaScript numbers that hold pixel positions, speeds and
  time stamps are modelled as exact rationals (\<^typ>\<open>rat\<close>); grid indices and gem colours are
  integers. Every call of \<^verbatim>\<open>Math.random()\<close> consumes the next element of an explicit list of
  draws, each draw being the value in \<open>[0, 1)\<close> that the call returned; a function that needs
  more draws than the list holds returns \<open>None\<close>. A loop that repeats until a draw is
  accepted therefore returns \<open>None\<close> on a list of draws that never satisfies it.
\<close>

definition unitDraws :: "rat list \<Rightarrow> bool" where
  "unitDraws us = list_all (\<lambda>u. 0 \<le> u \<and> u < 1) us"

section \<open>Match-Three: board algorithms\<close>

record CellPos =
  row :: nat
  col :: nat

record MatchGroup =
  cells :: "CellPos list"

text \<open>The field \<^verbatim>\<open>col\<close> of \<^verbatim>\<open>FallInfo\<close> is \<open>fcol\<close> here, since \<^verbatim>\<open>CellPos\<close> has a field of that name.\<close>

record FallInfo =
  fcol :: nat
  toRow :: nat
  fromRow :: int
  gemType :: int

record GameSettings =
  timeLimit :: rat
  gridSize :: nat
  gemTypes :: nat

definition PRESET_easy :: GameSettings where
  "PRESET_easy = \<lparr>timeLimit = 180, gridSize = 7, gemTypes = 5\<rparr>"

definition PRESET_medium :: GameSettings where
  "PRESET_medium = \<lparr>timeLimit = 120, gridSize = 8, gemTypes = 6\<rparr>"

definition PRESET_hard :: GameSettings where
  "PRESET_hard = \<lparr>timeLimit = 90, gridSize = 9, gemTypes = 7\<rparr>"

definition SWAP_MS :: rat where "SWAP_MS = 200"
definition CLEAR_MS :: rat where "CLEAR_MS = 250"
definition FALL_MS :: rat where "FALL_MS = 300"

text \<open>\<^verbatim>\<open>randomGem(n) = Math.floor(Math.random() * n)\<close>, on the draw \<open>u\<close>.\<close>

definition randomGem :: "nat \<Rightarrow> rat \<Rightarrow> int" where
  "randomGem n u = \<lfloor>u * of_nat n\<rfloor>"

subsection \<open>createBoard\<close>

text \<open>
  The \<^verbatim>\<open>do ... while\<close> loop of \<^verbatim>\<open>createBoard\<close>: draw a gem until it does not complete a run of
  three with the two cells to its left or the two cells above it. \<open>g\<close> is the grid built so
  far, whose row \<open>r\<close> holds the \<open>c\<close> cells already placed.
\<close>

fun pickGem :: "int list list \<Rightarrow> nat \<Rightarrow> nat \<Rightarrow> nat \<Rightarrow> rat list \<Rightarrow> (int \<times> rat list) option" where
  "pickGem g r c types [] = None"
| "pickGem g r c types (u # us) =
     (let gem = randomGem types u in
      if (c \<ge> 2 \<and> g ! r ! (c - 1) = gem \<and> g ! r ! (c - 2) = gem) \<or>
         (r \<ge> 2 \<and> g ! (r - 1) ! c = gem \<and> g ! (r - 2) ! c = gem)
      then pickGem g r c types us
      else Some (gem, us))"

text \<open>
  The inner \<^verbatim>\<open>for (c ...)\<close> loop. The assignment \<^verbatim>\<open>g[r][c] = gem\<close> is made with \<open>c\<close> equal to the
  current length of row \<open>r\<close>, so it appends.
\<close>

function fillRow :: "int list list \<Rightarrow> nat \<Rightarrow> nat \<Rightarrow> nat \<Rightarrow> nat \<Rightarrow> rat list
    \<Rightarrow> (int list list \<times> rat list) option" where
  "fillRow g r c sz types us =
     (if c < sz then
        (case pickGem g r c types us of
           None \<Rightarrow> None
         | Some (gem, us') \<Rightarrow> fillRow (g[r := g ! r @ [gem]]) r (Suc c) sz types us')
      else Some (g, us))"
  by pat_completeness auto
termination
  by (relation "measure (\<lambda>(g, r, c, sz, types, us). sz - c)") auto

declare fillRow.simps [simp del]

text \<open>The outer \<^verbatim>\<open>for (r ...)\<close> loop; \<^verbatim>\<open>g[r] = []\<close> appends an empty row.\<close>

function fillRows :: "int list list \<Rightarrow> nat \<Rightarrow> nat \<Rightarrow> nat \<Rightarrow> rat list
    \<Rightarrow> (int list list \<times> rat list) option" where
  "fillRows g r sz types us =
     (if r < sz then
        (case fillRow (g @ [[]]) r 0 sz types us of
           None \<Rightarrow> None
         | Some (g', us') \<Rightarrow> fillRows g' (Suc r) sz types us')
      else Some (g, us))"
  by pat_completeness auto
termination
  by (relation "measure (\<lambda>(g, r, sz, types, us). sz - r)") auto

declare fillRows.simps [simp del]

definition createBoard :: "nat \<Rightarrow> nat \<Rightarrow> rat list \<Rightarrow> (int list list \<times> rat list) option" where
  "createBoard sz types us = fillRows [] 0 sz types us"

subsection \<open>findMatches\<close>

text \<open>
  Both scans of \<^verbatim>\<open>findMatches\<close> walk one line of the grid: \<open>cell i\<close> reads the \<open>i\<close>-th cell of
  the line (\<^verbatim>\<open>grid[r][i]\<close> for a row, \<^verbatim>\<open>grid[i][c]\<close> for a column) and \<open>pos i\<close> is its position.
  \<open>scanRun\<close> is the inner \<^verbatim>\<open>while (end < n && ... === t) end++\<close>. The grids of the game are
  square, of side \<^verbatim>\<open>grid.length\<close>, so every read is in range.
\<close>

function scanRun :: "(nat \<Rightarrow> int) \<Rightarrow> nat \<Rightarrow> int \<Rightarrow> nat \<Rightarrow> nat" where
  "scanRun cell n t e = (if e < n \<and> cell e = t then scanRun cell n t (Suc e) else e)"
  by pat_completeness auto
termination
  by (relation "measure (\<lambda>(cell, n, t, e). n - e)") auto

declare scanRun.simps [simp del]

lemma scanRun_ge: "e \<le> scanRun cell n t e"
proof (induction cell n t e rule: scanRun.induct)
  case (1 cell n t e)
  show ?case
  proof (cases "e < n \<and> cell e = t")
    case True
    with 1 have "Suc e \<le> scanRun cell n t (Suc e)" by simp
    with True show ?thesis by (subst scanRun.simps) auto
  next
    case False
    then show ?thesis by (subst scanRun.simps) auto
  qed
qed

function scanLine :: "(nat \<Rightarrow> int) \<Rightarrow> (nat \<Rightarrow> CellPos) \<Rightarrow> nat \<Rightarrow> nat \<Rightarrow> MatchGroup list" where
  "scanLine cell pos n c =
     (if c < n then
        (if cell c < 0 then scanLine cell pos n (Suc c)
         else (if scanRun cell n (cell c) (Suc c) - c \<ge> 3
               then [\<lparr>cells = map pos [c..<scanRun cell n (cell c) (Suc c)]\<rparr>] else [])
              @ scanLine cell pos n (scanRun cell n (cell c) (Suc c)))
      else [])"
  by pat_completeness auto
termination
proof (relation "measure (\<lambda>(cell, pos, n, c). n - c)")
  show "wf (measure (\<lambda>(cell, pos, n, c). n - c))" by simp
next
  fix cell :: "nat \<Rightarrow> int" and pos :: "nat \<Rightarrow> CellPos" and n c :: nat
  assume "c < n"
  then show "((cell, pos, n, Suc c), (cell, pos, n, c)) \<in> measure (\<lambda>(cell, pos, n, c). n - c)"
    by simp
next
  fix cell :: "nat \<Rightarrow> int" and pos :: "nat \<Rightarrow> CellPos" and n c :: nat
  assume "c < n"
  moreover have "Suc c \<le> scanRun cell n (cell c) (Suc c)" by (rule scanRun_ge)
  ultimately show "((cell, pos, n, scanRun cell n (cell c) (Suc c)), (cell, pos, n, c))
      \<in> measure (\<lambda>(cell, pos, n, c). n - c)"
    by simp
qed

declare scanLine.simps [simp del]

definition findMatches :: "int list list \<Rightarrow> MatchGroup list" where
  "findMatches grid =
     (let n = length grid in
      concat (map (\<lambda>r. scanLine (\<lambda>i. grid ! r ! i) (\<lambda>i. \<lparr>row = r, col = i\<rparr>) n 0) [0..<n])
      @ concat (map (\<lambda>c. scanLine (\<lambda>i. grid ! i ! c) (\<lambda>i. \<lparr>row = i, col = c\<rparr>) n 0) [0..<n]))"

text \<open>
  \<^verbatim>\<open>getMatchedSet\<close> collects the matched cells in a JavaScript \<^verbatim>\<open>Set\<close> keyed by \<^verbatim>\<open>"row,col"\<close>:
  insertion order, no duplicates.
\<close>

definition getMatchedSet :: "MatchGroup list \<Rightarrow> CellPos list" where
  "getMatchedSet ms = rev (remdups (rev (concat (map cells ms))))"

definition calcScore :: "MatchGroup list \<Rightarrow> int \<Rightarrow> int" where
  "calcScore ms cascade =
     fold (\<lambda>m total. let len = length (cells m) in
                       if len \<le> 3 then total + 50 else if len = 4 then total + 150 else total + 300)
          ms 0 * cascade"

subsection \<open>applyGravity\<close>

text \<open>\<^verbatim>\<open>newGrid[r][c] = v\<close> on the \<open>n \<times> n\<close> grid allocated at the start of \<^verbatim>\<open>applyGravity\<close>.\<close>

definition setCell :: "int list list \<Rightarrow> nat \<Rightarrow> nat \<Rightarrow> int \<Rightarrow> int list list" where
  "setCell g r c v = g[r := (g ! r)[c := v]]"

text \<open>The surviving gems of column \<open>c\<close>, collected from the bottom row upwards.\<close>

definition existingOf :: "int list list \<Rightarrow> nat \<Rightarrow> (nat \<times> int) list" where
  "existingOf grid c =
     map (\<lambda>r. (r, grid ! r ! c)) (filter (\<lambda>r. grid ! r ! c \<ge> 0) (rev [0..<length grid]))"

text \<open>
  The loop over \<^verbatim>\<open>existing\<close>: the survivors are written from row \<open>write\<close> upwards; \<open>write\<close> is
  an integer because it reaches \<open>-1\<close> when the column is full.
\<close>

fun placeExisting :: "nat \<Rightarrow> (nat \<times> int) list \<Rightarrow> int list list \<Rightarrow> FallInfo list \<Rightarrow> int
    \<Rightarrow> int list list \<times> FallInfo list \<times> int" where
  "placeExisting c [] newGrid fd write = (newGrid, fd, write)"
| "placeExisting c ((fromR, t) # ex) newGrid fd write =
     placeExisting c ex (setCell newGrid (nat write) c t)
       (if int fromR \<noteq> write
        then fd @ [\<lparr>fcol = c, toRow = nat write, fromRow = int fromR, gemType = t\<rparr>] else fd)
       (write - 1)"

text \<open>The loop \<^verbatim>\<open>for (let i = write; i >= 0; i--)\<close> that draws the new gems of a column.\<close>

function fillNew :: "nat \<Rightarrow> nat \<Rightarrow> int \<Rightarrow> int \<Rightarrow> int list list \<Rightarrow> FallInfo list \<Rightarrow> rat list
    \<Rightarrow> (int list list \<times> FallInfo list \<times> rat list) option" where
  "fillNew c types numNew i newGrid fd us =
     (if i \<ge> 0 then
        (case us of
           [] \<Rightarrow> None
         | u # us' \<Rightarrow>
             fillNew c types numNew (i - 1) (setCell newGrid (nat i) c (randomGem types u))
               (fd @ [\<lparr>fcol = c, toRow = nat i, fromRow = i - numNew,
                       gemType = randomGem types u\<rparr>]) us')
      else Some (newGrid, fd, us))"
  by pat_completeness auto
termination
  by (relation "measure (\<lambda>(c, types, numNew, i, newGrid, fd, us). nat (i + 1))") auto

declare fillNew.simps [simp del]

function gravityCols :: "int list list \<Rightarrow> nat \<Rightarrow> nat \<Rightarrow> int list list \<Rightarrow> FallInfo list \<Rightarrow> rat list
    \<Rightarrow> (int list list \<times> FallInfo list \<times> rat list) option" where
  "gravityCols grid types c newGrid fd us =
     (if c < length grid then
        (case placeExisting c (existingOf grid c) newGrid fd (int (length grid) - 1) of
           (g1, fd1, write) \<Rightarrow>
             (case fillNew c types (write + 1) write g1 fd1 us of
                None \<Rightarrow> None
              | Some (g2, fd2, us') \<Rightarrow> gravityCols grid types (Suc c) g2 fd2 us'))
      else Some (newGrid, fd, us))"
  by pat_completeness auto
termination
  by (relation "measure (\<lambda>(grid, types, c, newGrid, fd, us). length grid - c)") auto

declare gravityCols.simps [simp del]

definition applyGravity :: "int list list \<Rightarrow> nat \<Rightarrow> rat list
    \<Rightarrow> (int list list \<times> FallInfo list \<times> rat list) option" where
  "applyGravity grid types us =
     (let n = length grid in
      gravityCols grid types 0 (replicate n (replicate n (- 1))) [] us)"

subsection \<open>wouldMatch and findValidMove\<close>

text \<open>
  \<^verbatim>\<open>while (left > 0 && line[left - 1] === t) left--\<close> and
  \<^verbatim>\<open>while (right < n - 1 && line[right + 1] === t) right++\<close>, on one line of the grid.
\<close>

fun runLeft :: "(nat \<Rightarrow> int) \<Rightarrow> int \<Rightarrow> nat \<Rightarrow> nat" where
  "runLeft cell t 0 = 0"
| "runLeft cell t (Suc l) = (if cell l = t then runLeft cell t l else Suc l)"

function runRight :: "(nat \<Rightarrow> int) \<Rightarrow> nat \<Rightarrow> int \<Rightarrow> nat \<Rightarrow> nat" where
  "runRight cell n t r = (if r < n - 1 \<and> cell (Suc r) = t then runRight cell n t (Suc r) else r)"
  by pat_completeness auto
termination
  by (relation "measure (\<lambda>(cell, n, t, r). n - r)") auto

declare runRight.simps [simp del]

text \<open>
  \<^verbatim>\<open>wouldMatch\<close> swaps the two cells in place, looks for a run of three through either cell, and
  writes the two old values back before it returns; the grid it leaves is the grid it was
  given, so the model returns the flag alone.
\<close>

definition wouldMatch :: "int list list \<Rightarrow> nat \<Rightarrow> nat \<Rightarrow> nat \<Rightarrow> nat \<Rightarrow> bool" where
  "wouldMatch grid r1 c1 r2 c2 =
     (let n = length grid; t1 = grid ! r1 ! c1; t2 = grid ! r2 ! c2 in
      if t1 = t2 then False
      else
        (let g = setCell (setCell grid r1 c1 t2) r2 c2 t1 in
         runRight (\<lambda>i. g ! r1 ! i) n t2 c1 - runLeft (\<lambda>i. g ! r1 ! i) t2 c1 + 1 \<ge> 3 \<or>
         runRight (\<lambda>i. g ! i ! c1) n t2 r1 - runLeft (\<lambda>i. g ! i ! c1) t2 r1 + 1 \<ge> 3 \<or>
         runRight (\<lambda>i. g ! r2 ! i) n t1 c2 - runLeft (\<lambda>i. g ! r2 ! i) t1 c2 + 1 \<ge> 3 \<or>
         runRight (\<lambda>i. g ! i ! c2) n t1 r2 - runLeft (\<lambda>i. g ! i ! c2) t1 r2 + 1 \<ge> 3))"

fun findMoveFrom :: "int list list \<Rightarrow> nat \<Rightarrow> (nat \<times> nat) list \<Rightarrow> CellPos list option" where
  "findMoveFrom grid n [] = None"
| "findMoveFrom grid n ((r, c) # rest) =
     (if c < n - 1 \<and> wouldMatch grid r c r (c + 1)
      then Some [\<lparr>row = r, col = c\<rparr>, \<lparr>row = r, col = c + 1\<rparr>]
      else if r < n - 1 \<and> wouldMatch grid r c (r + 1) c
      then Some [\<lparr>row = r, col = c\<rparr>, \<lparr>row = r + 1, col = c\<rparr>]
      else findMoveFrom grid n rest)"

text \<open>The two nested loops of \<^verbatim>\<open>findValidMove\<close> visit the cells in row-major order.\<close>

definition findValidMove :: "int list list \<Rightarrow> CellPos list option" where
  "findValidMove grid =
     (let n = length grid in findMoveFrom grid n (List.product [0..<n] [0..<n]))"

subsection \<open>shuffleBoard\<close>

text \<open>
  The Fisher-Yates loop \<^verbatim>\<open>for (let i = flat.length - 1; i > 0; i--)\<close> with
  \<^verbatim>\<open>j = Math.floor(Math.random() * (i + 1))\<close>.
\<close>

fun fisherYates :: "int list \<Rightarrow> nat \<Rightarrow> rat list \<Rightarrow> (int list \<times> rat list) option" where
  "fisherYates flat 0 us = Some (flat, us)"
| "fisherYates flat (Suc i) [] = None"
| "fisherYates flat (Suc i) (u # us) =
     (let j = nat \<lfloor>u * of_nat (Suc i + 1)\<rfloor> in
      fisherYates (flat[Suc i := flat ! j, j := flat ! Suc i]) i us)"

definition unflatten :: "nat \<Rightarrow> int list \<Rightarrow> int list list" where
  "unflatten n flat = map (\<lambda>r. take n (drop (r * n) flat)) [0..<n]"

text \<open>
  The attempts loop of \<^verbatim>\<open>shuffleBoard\<close>; \<open>k\<close> counts the attempts that are left, the source
  counts the attempts made. After the last failed attempt the board is replaced by
  \<^verbatim>\<open>createBoard(n, types)\<close>.
\<close>

fun shuffleAttempts :: "int list list \<Rightarrow> nat \<Rightarrow> nat \<Rightarrow> rat list \<Rightarrow> (int list list \<times> rat list) option" where
  "shuffleAttempts grid types 0 us = createBoard (length grid) types us"
| "shuffleAttempts grid types (Suc k) us =
     (case fisherYates (concat grid) (length (concat grid) - 1) us of
        None \<Rightarrow> None
      | Some (flat, us') \<Rightarrow>
          (let ng = unflatten (length grid) flat in
           if findMatches ng = [] \<and> findValidMove ng \<noteq> None then Some (ng, us')
           else shuffleAttempts grid types k us'))"

definition shuffleBoard :: "int list list \<Rightarrow> nat \<Rightarrow> rat list \<Rightarrow> (int list list \<times> rat list) option" where
  "shuffleBoard grid types us = shuffleAttempts grid types 100 us"

section \<open>Match-Three: the animation state machine\<close>

datatype GameState = Menu | Playing | Paused | Gameover

datatype AnimState = Idle | Swapping | SwappingBack | Clearing | Falling

text \<open>
  The mutable object behind \<^verbatim>\<open>gameRef\<close>. The score floaters are presentation data and are
  left out, as are the React display setters and the best-score write at game over.
\<close>

record Game =
  grid :: "int list list"
  score :: int
  timeRemaining :: rat
  cascadeLevel :: int
  selected :: "CellPos option"
  animState :: AnimState
  animStart :: rat
  swapFrom :: CellPos
  swapTo :: CellPos
  matchedCells :: "CellPos list"
  fallData :: "FallInfo list"
  lastInteraction :: rat
  lastTickTime :: rat
  hintMove :: "CellPos list option"

text \<open>
  The timer block of \<^verbatim>\<open>draw\<close>. \<open>timerDt\<close> is the amount subtracted from \<^verbatim>\<open>timeRemaining\<close>:
  the elapsed seconds when they are below \<open>0.5\<close>, nothing otherwise.
\<close>

definition timerDt :: "rat \<Rightarrow> rat \<Rightarrow> rat" where
  "timerDt lastTick now =
     (if lastTick > 0 then (let dt = (now - lastTick) / 1000 in if dt < 1 / 2 then dt else 0)
      else 0)"

definition drawTimer :: "rat \<Rightarrow> GameState \<times> Game \<Rightarrow> GameState \<times> Game" where
  "drawTimer now sg =
     (case sg of (st, game) \<Rightarrow>
        if st = Playing then
          (let g1 = game\<lparr>timeRemaining := timeRemaining game - timerDt (lastTickTime game) now,
                          lastTickTime := now\<rparr>
           in if timeRemaining g1 \<le> 0 then (Gameover, g1\<lparr>timeRemaining := 0\<rparr>)
              else (Playing, g1))
        else (st, game\<lparr>lastTickTime := 0\<rparr>))"

text \<open>
  The destructuring swap
  \<^verbatim>\<open>[grid[sf.row][sf.col], grid[st.row][st.col]] = [grid[st.row][st.col], grid[sf.row][sf.col]]\<close>:
  both cells are read, then the two writes are made in order.
\<close>

definition swapCells :: "int list list \<Rightarrow> CellPos \<Rightarrow> CellPos \<Rightarrow> int list list" where
  "swapCells g sf st =
     (let a = g ! row st ! col st; b = g ! row sf ! col sf in
      setCell (setCell g (row sf) (col sf) a) (row st) (col st) b)"

definition stepSwapping :: "rat \<Rightarrow> Game \<Rightarrow> Game" where
  "stepSwapping now game =
     (if animState game = Swapping \<and> now - animStart game \<ge> SWAP_MS then
        (let g1 = swapCells (grid game) (swapFrom game) (swapTo game);
             matches = findMatches g1 in
         if matches \<noteq> [] then
           game\<lparr>grid := g1, matchedCells := getMatchedSet matches, cascadeLevel := 1,
                 score := score game + calcScore matches 1,
                 animState := Clearing, animStart := now\<rparr>
         else
           game\<lparr>grid := swapCells g1 (swapFrom game) (swapTo game),
                 animState := SwappingBack, animStart := now\<rparr>)
      else game)"

definition stepSwappingBack :: "rat \<Rightarrow> Game \<Rightarrow> Game" where
  "stepSwappingBack now game =
     (if animState game = SwappingBack \<and> now - animStart game \<ge> SWAP_MS
      then game\<lparr>animState := Idle\<rparr> else game)"

definition stepClearing :: "rat \<Rightarrow> nat \<Rightarrow> Game \<Rightarrow> rat list \<Rightarrow> (Game \<times> rat list) option" where
  "stepClearing now types game us =
     (if animState game = Clearing \<and> now - animStart game \<ge> CLEAR_MS then
        (case applyGravity
                (fold (\<lambda>k g. setCell g (row k) (col k) (- 1)) (matchedCells game) (grid game))
                types us of
           None \<Rightarrow> None
         | Some (newGrid, fd, us') \<Rightarrow>
             Some (game\<lparr>grid := newGrid, fallData := fd, matchedCells := [],
                        animState := Falling, animStart := now\<rparr>, us'))
      else Some (game, us))"

definition stepFalling :: "rat \<Rightarrow> nat \<Rightarrow> Game \<Rightarrow> rat list \<Rightarrow> (Game \<times> rat list) option" where
  "stepFalling now types game us =
     (if animState game = Falling \<and> now - animStart game \<ge> FALL_MS then
        (let matches = findMatches (grid game) in
         if matches \<noteq> [] then
           Some (game\<lparr>matchedCells := getMatchedSet matches,
                      cascadeLevel := cascadeLevel game + 1,
                      score := score game + calcScore matches (cascadeLevel game + 1),
                      animState := Clearing, animStart := now\<rparr>, us)
         else if findValidMove (grid game) = None then
           (case shuffleBoard (grid game) types us of
              None \<Rightarrow> None
            | Some (ng, us') \<Rightarrow>
                Some (game\<lparr>cascadeLevel := 0, grid := ng, animState := Idle,
                           hintMove := None\<rparr>, us'))
         else Some (game\<lparr>cascadeLevel := 0, animState := Idle, hintMove := None\<rparr>, us))
      else Some (game, us))"

text \<open>
  One call of \<^verbatim>\<open>draw\<close> at time stamp \<open>now\<close>: the timer, then the four transition tests in
  the order of the source, each on the state the previous one left.
\<close>

definition draw :: "rat \<Rightarrow> GameSettings \<Rightarrow> GameState \<times> Game \<Rightarrow> rat list
    \<Rightarrow> ((GameState \<times> Game) \<times> rat list) option" where
  "draw now s sg us =
     (case drawTimer now sg of (st, g0) \<Rightarrow>
        (case stepClearing now (gemTypes s) (stepSwappingBack now (stepSwapping now g0)) us of
           None \<Rightarrow> None
         | Some (g3, us3) \<Rightarrow>
             (case stepFalling now (gemTypes s) g3 us3 of
                None \<Rightarrow> None
              | Some (g4, us4) \<Rightarrow> Some ((st, g4), us4))))"

text \<open>Successive frames with no input event between them.\<close>

fun drawFrames :: "rat list \<Rightarrow> GameSettings \<Rightarrow> GameState \<times> Game \<Rightarrow> rat list
    \<Rightarrow> ((GameState \<times> Game) \<times> rat list) option" where
  "drawFrames [] s sg us = Some (sg, us)"
| "drawFrames (now # ts) s sg us =
     (case draw now s sg us of None \<Rightarrow> None | Some (sg', us') \<Rightarrow> drawFrames ts s sg' us')"

text \<open>
  The input handlers that start a swap. \<open>cell\<close> is the result of \<^verbatim>\<open>clientToCell\<close> (\<open>None\<close> for a
  point outside the grid, otherwise a cell with both indices below \<^verbatim>\<open>gridSize\<close>), \<open>now\<close>
  and \<open>now2\<close> are the two readings of \<^verbatim>\<open>performance.now()\<close> that a handler makes.
\<close>

definition handleTap :: "GameState \<Rightarrow> rat \<Rightarrow> rat \<Rightarrow> CellPos option \<Rightarrow> Game \<Rightarrow> Game" where
  "handleTap st now now2 cell game =
     (if st \<noteq> Playing then game
      else if animState game \<noteq> Idle then game
      else
        (case cell of
           None \<Rightarrow> game\<lparr>selected := None\<rparr>
         | Some c \<Rightarrow>
             (let g1 = game\<lparr>lastInteraction := now, hintMove := None\<rparr> in
              case selected g1 of
                None \<Rightarrow> g1\<lparr>selected := Some c\<rparr>
              | Some sel \<Rightarrow>
                  if row sel = row c \<and> col sel = col c then g1\<lparr>selected := None\<rparr>
                  else if \<bar>int (row sel) - int (row c)\<bar> + \<bar>int (col sel) - int (col c)\<bar> = 1
                  then g1\<lparr>swapFrom := sel, swapTo := c, animState := Swapping,
                          animStart := now2, selected := None\<rparr>
                  else g1\<lparr>selected := Some c\<rparr>)))"

definition handleSwipe :: "GameState \<Rightarrow> nat \<Rightarrow> rat \<Rightarrow> rat \<Rightarrow> CellPos \<Rightarrow> rat \<Rightarrow> rat \<Rightarrow> Game
    \<Rightarrow> Game" where
  "handleSwipe st gs now now2 startCell dx dy game =
     (if st \<noteq> Playing then game
      else if animState game \<noteq> Idle then game
      else
        (let targetRow = int (row startCell) + (if \<bar>dx\<bar> > \<bar>dy\<bar> then 0 else if dy > 0 then 1 else - 1);
             targetCol = int (col startCell) + (if \<bar>dx\<bar> > \<bar>dy\<bar> then (if dx > 0 then 1 else - 1) else 0)
         in if targetRow < 0 \<or> targetRow \<ge> int gs \<or> targetCol < 0 \<or> targetCol \<ge> int gs then game
            else game\<lparr>lastInteraction := now, hintMove := None, selected := None,
                       swapFrom := startCell,
                       swapTo := \<lparr>row = nat targetRow, col = nat targetCol\<rparr>,
                       animState := Swapping, animStart := now2\<rparr>))"

section \<open>Snake\<close>

record Point =
  x :: int
  y :: int

datatype Direction = Up | Down | Left | Right

record SnakeSettings =
  speed :: nat
  snakeGridSize :: int
  wallTeleport :: bool

definition DIRECTION_VECTORS :: "Direction \<Rightarrow> Point" where
  "DIRECTION_VECTORS d =
     (case d of Up \<Rightarrow> \<lparr>x = 0, y = - 1\<rparr> | Down \<Rightarrow> \<lparr>x = 0, y = 1\<rparr>
      | Left \<Rightarrow> \<lparr>x = - 1, y = 0\<rparr> | Right \<Rightarrow> \<lparr>x = 1, y = 0\<rparr>)"

text \<open>
  The refs of the Snake component that the tick reads and writes. The state type is the
  same four-valued \<^verbatim>\<open>GameState\<close> as in Match-Three.
\<close>

record SnakeWorld =
  snakeState :: GameState
  snake :: "Point list"
  food :: Point
  dir :: Direction
  nextDir :: Direction
  snakeScore :: nat

text \<open>
  \<^verbatim>\<open>spawnFood\<close>: the free cells are listed with \<open>x\<close> in the outer loop, and the draw \<open>u\<close>
  picks one; with no free cell the food goes to \<open>(0, 0)\<close>.
\<close>

definition spawnFood :: "int \<Rightarrow> Point list \<Rightarrow> rat \<Rightarrow> Point" where
  "spawnFood gs body u =
     (let free = filter (\<lambda>p. p \<notin> set body)
                   (concat (map (\<lambda>i. map (\<lambda>j. \<lparr>x = i, y = j\<rparr>) [0..gs - 1]) [0..gs - 1])) in
      if length free > 0 then free ! nat \<lfloor>u * of_nat (length free)\<rfloor> else \<lparr>x = 0, y = 0\<rparr>)"

definition initGame :: "SnakeSettings \<Rightarrow> rat \<Rightarrow> SnakeWorld \<Rightarrow> SnakeWorld" where
  "initGame cfg u wd =
     (let gs = snakeGridSize cfg; mid = gs div 2;
          body = [\<lparr>x = mid, y = mid\<rparr>, \<lparr>x = mid - 1, y = mid\<rparr>, \<lparr>x = mid - 2, y = mid\<rparr>] in
      wd\<lparr>snake := body, dir := Right, nextDir := Right, snakeScore := 0,
         food := spawnFood gs body u\<rparr>)"

definition startGame :: "SnakeSettings \<Rightarrow> rat \<Rightarrow> SnakeWorld \<Rightarrow> SnakeWorld" where
  "startGame cfg u wd = (initGame cfg u wd)\<lparr>snakeState := Playing\<rparr>"

definition togglePause :: "SnakeWorld \<Rightarrow> SnakeWorld" where
  "togglePause wd =
     (if snakeState wd = Playing then wd\<lparr>snakeState := Paused\<rparr>
      else if snakeState wd = Paused then wd\<lparr>snakeState := Playing\<rparr> else wd)"

text \<open>The direction keys and swipes: a turn is buffered unless it reverses the current direction.\<close>

definition steer :: "Direction \<Rightarrow> SnakeWorld \<Rightarrow> SnakeWorld" where
  "steer d wd =
     (case d of
        Up \<Rightarrow> if dir wd \<noteq> Down then wd\<lparr>nextDir := Up\<rparr> else wd
      | Down \<Rightarrow> if dir wd \<noteq> Up then wd\<lparr>nextDir := Down\<rparr> else wd
      | Left \<Rightarrow> if dir wd \<noteq> Right then wd\<lparr>nextDir := Left\<rparr> else wd
      | Right \<Rightarrow> if dir wd \<noteq> Left then wd\<lparr>nextDir := Right\<rparr> else wd)"

text \<open>
  The head cell that a tick computes from the old head and the direction: one step along
  the direction vector, then the wall handling of a teleporting grid. JavaScript's \<^verbatim>\<open>%\<close> takes
  the sign of the dividend (\<open>smod\<close>).
\<close>

definition newHeadOf :: "SnakeSettings \<Rightarrow> Direction \<Rightarrow> Point \<Rightarrow> Point" where
  "newHeadOf cfg d head =
     (let gs = snakeGridSize cfg; vec = DIRECTION_VECTORS d;
          moved = \<lparr>x = x head + x vec, y = y head + y vec\<rparr> in
      if wallTeleport cfg
      then \<lparr>x = ((x moved smod gs) + gs) smod gs, y = ((y moved smod gs) + gs) smod gs\<rparr>
      else moved)"

text \<open>The wall test, made only when the grid does not teleport.\<close>

definition hitsWall :: "SnakeSettings \<Rightarrow> Point \<Rightarrow> bool" where
  "hitsWall cfg p =
     (\<not> wallTeleport cfg \<and>
      (x p < 0 \<or> x p \<ge> snakeGridSize cfg \<or> y p < 0 \<or> y p \<ge> snakeGridSize cfg))"

text \<open>
  One call of \<^verbatim>\<open>tick\<close>. \<open>u\<close> is the draw that \<^verbatim>\<open>spawnFood\<close> uses when the move eats. Reading
  \<^verbatim>\<open>snake[0].x\<close> on an empty body throws; that is the result \<open>None\<close>. The best-score write
  at game over is left out.
\<close>

definition tick :: "SnakeSettings \<Rightarrow> rat \<Rightarrow> SnakeWorld \<Rightarrow> SnakeWorld option" where
  "tick cfg u wd =
     (if snakeState wd \<noteq> Playing then Some wd
      else
        (case snake wd of
           [] \<Rightarrow> None
         | head # _ \<Rightarrow>
             (let wd1 = wd\<lparr>dir := nextDir wd\<rparr>;
                  newHead = newHeadOf cfg (dir wd1) head
              in if hitsWall cfg newHead then Some (wd1\<lparr>snakeState := Gameover\<rparr>)
                 else
                   (let willEat = (x newHead = x (food wd1) \<and> y newHead = y (food wd1));
                        bodyToCheck = (if willEat then snake wd1 else butlast (snake wd1))
                    in if list_ex (\<lambda>seg. x seg = x newHead \<and> y seg = y newHead) bodyToCheck
                       then Some (wd1\<lparr>snakeState := Gameover\<rparr>)
                       else if willEat
                       then Some (wd1\<lparr>snake := newHead # snake wd1,
                                       snakeScore := snakeScore wd1 + 1,
                                       food := spawnFood (snakeGridSize cfg)
                                                 (newHead # snake wd1) u\<rparr>)
                       else Some (wd1\<lparr>snake := butlast (newHead # snake wd1)\<rparr>)))))"

text \<open>
  A run of the game: ticks of the interval timer, direction inputs, pauses and restarts
  (\<^verbatim>\<open>playAgain\<close>), in any order.
\<close>

datatype SnakeEvent = Tick rat | Steer Direction | TogglePause | Restart rat

fun snakeRun :: "SnakeSettings \<Rightarrow> SnakeEvent list \<Rightarrow> SnakeWorld \<Rightarrow> SnakeWorld option" where
  "snakeRun cfg [] wd = Some wd"
| "snakeRun cfg (Tick u # evs) wd =
     (case tick cfg u wd of None \<Rightarrow> None | Some wd' \<Rightarrow> snakeRun cfg evs wd')"
| "snakeRun cfg (Steer d # evs) wd = snakeRun cfg evs (steer d wd)"
| "snakeRun cfg (TogglePause # evs) wd = snakeRun cfg evs (togglePause wd)"
| "snakeRun cfg (Restart u # evs) wd = snakeRun cfg evs (startGame cfg u wd)"

section \<open>Flappy Bird\<close>

definition FLAPPY_GRAVITY :: rat where "FLAPPY_GRAVITY = 45 / 100"
definition FLAP_STRENGTH :: rat where "FLAP_STRENGTH = - (75 / 10)"
definition GROUND_HEIGHT :: rat where "GROUND_HEIGHT = 60"

record Bird =
  birdX :: rat
  birdY :: rat
  velocity :: rat
  rotation :: rat
  wingPhase :: rat

record Pipe =
  pipeX :: rat
  gapY :: rat
  scored :: bool

datatype FlappyState = FlappyReady | FlappyPlaying | FlappyGameover

record Flappy =
  flappyState :: FlappyState
  bird :: Bird
  pipes :: "Pipe list"
  flappyScore :: nat
  frameCount :: nat

definition resetGame :: "rat \<Rightarrow> rat \<Rightarrow> Flappy \<Rightarrow> Flappy" where
  "resetGame w h fl =
     fl\<lparr>bird := \<lparr>birdX = w * (25 / 100), birdY = (h - GROUND_HEIGHT) / 2, velocity = 0,
                  rotation = 0, wingPhase = 0\<rparr>,
        pipes := [], flappyScore := 0, frameCount := 0\<rparr>"

text \<open>
  \<^verbatim>\<open>flap\<close>; \<open>canvas\<close> is the size of the canvas, \<open>None\<close> when \<^verbatim>\<open>canvasRef.current\<close> is null.
\<close>

definition flap :: "(rat \<times> rat) option \<Rightarrow> Flappy \<Rightarrow> Flappy" where
  "flap canvas fl =
     (if flappyState fl = FlappyReady
      then fl\<lparr>flappyState := FlappyPlaying, bird := (bird fl)\<lparr>velocity := FLAP_STRENGTH\<rparr>\<rparr>
      else if flappyState fl = FlappyPlaying
      then fl\<lparr>bird := (bird fl)\<lparr>velocity := FLAP_STRENGTH\<rparr>\<rparr>
      else (case canvas of None \<Rightarrow> fl | Some (w, h) \<Rightarrow> resetGame w h fl)
             \<lparr>flappyState := FlappyReady\<rparr>)"

section \<open>The stored best score\<close>

text \<open>
  The value read from storage is a JavaScript string, that is a sequence of UTF-16 code units;
  \<open>units\<close> gives the code units of a Latin-1 literal. A JavaScript number is \<^verbatim>\<open>NaN\<close>, one of
  the two infinities, the negative zero, or a double whose value is the integer \<open>k\<close>, written
  \<open>Num k\<close>.
\<close>

type_synonym jsstring = "nat list"

definition units :: "string \<Rightarrow> jsstring" where
  "units s = map of_char s"

datatype jsnum = NaN | PosInf | NegInf | NegZero | Num int

text \<open>
  \<^verbatim>\<open>parseInt(s, 10)\<close>. Leading white space is skipped, every \<^verbatim>\<open>StrWhiteSpaceChar\<close> of ECMAScript:
  TAB, LF, VT, FF, CR, SP, NBSP, U+1680, U+2000 to U+200A, LS, PS, U+202F, U+205F, U+3000 and
  ZWNBSP. Then one sign is read, and the longest run of decimal digits that follows is the
  digit string; with no digit the result is \<^verbatim>\<open>NaN\<close>.
\<close>

definition isWhite :: "nat \<Rightarrow> bool" where
  "isWhite c =
     (c \<in> {9, 10, 11, 12, 13, 32, 160, 5760, 8232, 8233, 8239, 8287, 12288, 65279} \<or>
      (8192 \<le> c \<and> c \<le> 8202))"

definition isDigit :: "nat \<Rightarrow> bool" where
  "isDigit c = (48 \<le> c \<and> c \<le> 57)"

definition digitsValue :: "jsstring \<Rightarrow> int" where
  "digitsValue ds = fold (\<lambda>c a. 10 * a + (int c - 48)) ds 0"

definition afterSign :: "jsstring \<Rightarrow> bool \<times> jsstring" where
  "afterSign t =
     (case t of
        [] \<Rightarrow> (False, [])
      | c # r \<Rightarrow> if c = 45 then (True, r) else if c = 43 then (False, r) else (False, t))"

definition leadingDigits :: "jsstring \<Rightarrow> jsstring" where
  "leadingDigits s = takeWhile isDigit (snd (afterSign (dropWhile isWhite s)))"

text \<open>
  The integer that the digits denote becomes a Number: it is rounded to a double, to the
  nearest one and on a tie to the one with the even significand. \<open>bits n\<close> is the length of
  \<open>n\<close> in binary; an integer of more than 53 bits keeps its 53 leading bits \<open>q\<close>, and the
  bits \<open>r\<close> that are dropped decide the rounding. A rounded value of \<open>2 ^ 1024\<close> or more is
  an infinity, and a value of zero keeps the sign. ECMAScript lets an implementation replace
  the digits after the twentieth significant one by zeros before it rounds; the model rounds
  the integer itself.
\<close>

function bits :: "int \<Rightarrow> nat" where
  "bits n = (if n \<le> 0 then 0 else Suc (bits (n div 2)))"
  by pat_completeness auto
termination
  by (relation "measure nat") auto

declare bits.simps [simp del]

definition roundHalfEven :: "int \<Rightarrow> int" where
  "roundHalfEven n =
     (if n < 2 ^ 53 then n
      else
        (let e = bits n - 53; q = n div 2 ^ e; r = n mod 2 ^ e in
         if 2 * r > 2 ^ e \<or> (2 * r = 2 ^ e \<and> odd q) then (q + 1) * 2 ^ e else q * 2 ^ e))"

definition toNumber :: "bool \<Rightarrow> int \<Rightarrow> jsnum" where
  "toNumber neg n =
     (let m = roundHalfEven n in
      if m \<ge> 2 ^ 1024 then (if neg then NegInf else PosInf)
      else Num (if neg then - m else m))"

definition parseInt10 :: "jsstring \<Rightarrow> jsnum" where
  "parseInt10 s =
     (let neg = fst (afterSign (dropWhile isWhite s)); z = leadingDigits s in
      if z = [] then NaN
      else if digitsValue z = 0 then (if neg then NegZero else Num 0)
      else toNumber neg (digitsValue z))"

text \<open>
  The initialiser of the \<^verbatim>\<open>best\<close> state, the same in every game up to the key:
  \<^verbatim>\<open>const v = localStorage.getItem(key); return v ? parseInt(v, 10) : 0\<close>.
  \<^verbatim>\<open>null\<close> and the empty string are the falsy values of \<open>v\<close>.
\<close>

definition bestInit :: "(string \<rightharpoonup> jsstring) \<Rightarrow> string \<Rightarrow> jsnum" where
  "bestInit storage key =
     (case storage key of
        None \<Rightarrow> Num 0
      | Some v \<Rightarrow> if v = [] then Num 0 else parseInt10 v)"

section \<open>Space Invaders: the formation step\<close>

record Alien =
  alienRow :: nat
  alienCol :: nat
  alienX :: rat
  alienY :: rat
  alienW :: rat
  alienH :: rat
  alive :: bool
  alienType :: nat
  animFrame :: nat

record InvadersSettings =
  alienSpeed :: rat
  alienDropPx :: rat

record Invaders =
  aliens :: "Alien list"
  alienDir :: int
  stepTimer :: rat
  stepInterval :: rat
  alienAnimFrame :: nat


text \<open>The loop that sets \<^verbatim>\<open>needDrop\<close> and breaks at the first alive alien that would cross an edge.\<close>

definition needDrop :: "rat \<Rightarrow> InvadersSettings \<Rightarrow> Invaders \<Rightarrow> bool" where
  "needDrop w s game =
     list_ex (\<lambda>a. alive a \<and>
                  (let nx = alienX a + of_int (alienDir game) * alienSpeed s in
                   nx < 4 \<or> nx + alienW a > w - 4))
             (aliens game)"

text \<open>
  The block \<^verbatim>\<open>// Alien formation step\<close> of \<^verbatim>\<open>frame\<close>, for a frame of \<open>dt\<close> seconds on a canvas
  \<open>w\<close> wide. Only the fields of the game and of the settings that this block reads or writes
  are kept in the records.
\<close>

definition formationStep :: "rat \<Rightarrow> rat \<Rightarrow> InvadersSettings \<Rightarrow> Invaders \<Rightarrow> Invaders" where
  "formationStep dt w s game =
     (let g1 = game\<lparr>stepTimer := stepTimer game + dt * 1000\<rparr> in
      if stepTimer g1 \<ge> stepInterval g1 then
        (let g2 = g1\<lparr>stepTimer := 0, alienAnimFrame := (alienAnimFrame g1 + 1) mod 2\<rparr> in
         if needDrop w s g2 then
           g2\<lparr>alienDir := alienDir g2 * - 1,
              aliens := map (\<lambda>a. if \<not> alive a then a
                                  else a\<lparr>alienY := alienY a + alienDropPx s,
                                         animFrame := alienAnimFrame g2\<rparr>) (aliens g2)\<rparr>
         else
           g2\<lparr>aliens := map (\<lambda>a. if \<not> alive a then a
                                  else a\<lparr>alienX := alienX a + of_int (alienDir g2) * alienSpeed s,
                                         animFrame := alienAnimFrame g2\<rparr>) (aliens g2)\<rparr>)
      else g1)"

section \<open>Pixel Runner: platform generation\<close>

record RunnerSettings =
  baseSpeed :: rat
  acceleration :: rat
  gapMin :: rat
  gapMax :: rat
  platWidthMin :: rat
  platWidthMax :: rat
  obstacleChance :: rat
  coinChance :: rat
  doubleJump :: bool

definition RUNNER_medium :: RunnerSettings where
  "RUNNER_medium = \<lparr>baseSpeed = 230, acceleration = 5 / 2, gapMin = 55, gapMax = 120,
     platWidthMin = 90, platWidthMax = 200, obstacleChance = 1 / 4, coinChance = 2 / 5,
     doubleJump = True\<rparr>"

record Platform =
  platX :: rat
  platY :: rat
  platW :: rat

datatype ObstacleKind = Spike | Flyer

text \<open>
  The phase of a flyer is \<^verbatim>\<open>Math.random() * Math.PI * 2\<close>; the record keeps the draw, that is
  the phase in turns.
\<close>

record Obstacle =
  obsX :: rat
  obsY :: rat
  obsW :: rat
  obsH :: rat
  kind :: ObstacleKind
  baseY :: rat
  phaseTurns :: rat

record Coin =
  coinX :: rat
  coinY :: rat
  collected :: bool

record Runner =
  platforms :: "Platform list"
  obstacles :: "Obstacle list"
  coins :: "Coin list"
  groundY :: rat

definition SPAWN_AHEAD :: rat where "SPAWN_AHEAD = 400"

text \<open>\<^verbatim>\<open>rand(min, max) = min + Math.random() * (max - min)\<close> on the draw \<open>u\<close>, and \<^verbatim>\<open>clamp\<close>.\<close>

definition rand :: "rat \<Rightarrow> rat \<Rightarrow> rat \<Rightarrow> rat" where
  "rand lo hi u = lo + u * (hi - lo)"

definition clamp :: "rat \<Rightarrow> rat \<Rightarrow> rat \<Rightarrow> rat" where
  "clamp v lo hi = max lo (min hi v)"


text \<open>
  The new platform of one iteration: three draws, for the gap, the width and the height.
\<close>

definition newPlatform :: "rat \<Rightarrow> RunnerSettings \<Rightarrow> rat \<Rightarrow> rat \<Rightarrow> rat \<Rightarrow> rat \<Rightarrow> rat \<Rightarrow> Platform" where
  "newPlatform h s gy lastRight u1 u2 u3 =
     \<lparr>platX = lastRight + rand (gapMin s) (gapMax s) u1,
      platY = clamp (gy + rand (- 60) 40 u3) (h * (35 / 100)) (h * (88 / 100)),
      platW = rand (platWidthMin s) (platWidthMax s) u2\<rparr>"

text \<open>\<^verbatim>\<open>// Maybe add coin\<close>: one draw for the test, two more for a coin.\<close>

definition maybeCoin :: "RunnerSettings \<Rightarrow> Platform \<Rightarrow> Coin list \<Rightarrow> rat list
    \<Rightarrow> (Coin list \<times> rat list) option" where
  "maybeCoin s p cs us =
     (case us of
        [] \<Rightarrow> None
      | u # us1 \<Rightarrow>
          if u < coinChance s then
            (case us1 of
               a # b # us2 \<Rightarrow>
                 Some (cs @ [\<lparr>coinX = platX p + platW p * rand (2 / 10) (8 / 10) a,
                               coinY = platY p - rand 25 45 b, collected = False\<rparr>], us2)
             | _ \<Rightarrow> None)
          else Some (cs, us1))"

text \<open>
  \<^verbatim>\<open>// Maybe add obstacle\<close>: one draw for the test, one for the kind, then one draw for a spike
  and three for a flyer (its height is drawn before its position).
\<close>

definition maybeObstacle :: "RunnerSettings \<Rightarrow> Platform \<Rightarrow> Obstacle list \<Rightarrow> rat list
    \<Rightarrow> (Obstacle list \<times> rat list) option" where
  "maybeObstacle s p os us =
     (case us of
        [] \<Rightarrow> None
      | u # us1 \<Rightarrow>
          if u < obstacleChance s then
            (case us1 of
               [] \<Rightarrow> None
             | k # us2 \<Rightarrow>
                 if k < 6 / 10 then
                   (case us2 of
                      [] \<Rightarrow> None
                    | a # us3 \<Rightarrow>
                        Some (os @ [\<lparr>obsX = platX p + platW p * rand (3 / 10) (7 / 10) a,
                                      obsY = platY p - 14, obsW = 14, obsH = 14, kind = Spike,
                                      baseY = 0, phaseTurns = 0\<rparr>], us3))
                 else
                   (case us2 of
                      a # b # c # us3 \<Rightarrow>
                        Some (os @ [\<lparr>obsX = platX p + platW p * rand (2 / 10) (8 / 10) b,
                                      obsY = platY p - rand 50 90 a, obsW = 20, obsH = 16,
                                      kind = Flyer, baseY = platY p - rand 50 90 a,
                                      phaseTurns = c\<rparr>], us3)
                    | _ \<Rightarrow> None))
          else Some (os, us1))"

text \<open>One iteration of the generation loop of \<^verbatim>\<open>frame\<close>, on the loop variable \<open>lastRight\<close>.\<close>

definition genOne :: "rat \<Rightarrow> RunnerSettings \<Rightarrow> rat \<Rightarrow> rat \<times> Platform list \<times> Coin list \<times> Obstacle list
    \<Rightarrow> rat list \<Rightarrow> ((rat \<times> Platform list \<times> Coin list \<times> Obstacle list) \<times> rat list) option" where
  "genOne h s gy st us =
     (case st of (lastRight, ps, cs, os) \<Rightarrow>
        (case us of
           u1 # u2 # u3 # us1 \<Rightarrow>
             (let p = newPlatform h s gy lastRight u1 u2 u3 in
              case maybeCoin s p cs us1 of
                None \<Rightarrow> None
              | Some (cs', us2) \<Rightarrow>
                  (case maybeObstacle s p os us2 of
                     None \<Rightarrow> None
                   | Some (os', us3) \<Rightarrow>
                       Some ((platX p + platW p, ps @ [p], cs', os'), us3)))
         | _ \<Rightarrow> None))"

lemma maybeCoin_shorter: "maybeCoin s p cs us = Some (cs', us') \<Longrightarrow> length us' < length us"
  by (auto simp: maybeCoin_def split: list.splits if_splits)

lemma maybeObstacle_shorter:
  "maybeObstacle s p os us = Some (os', us') \<Longrightarrow> length us' < length us"
  by (auto simp: maybeObstacle_def split: list.splits if_splits)

lemma genOne_shorter: "genOne h s gy st us = Some (st', us') \<Longrightarrow> length us' < length us"
  by (auto simp: genOne_def Let_def split: prod.splits list.splits option.splits
      dest!: maybeCoin_shorter maybeObstacle_shorter)

text \<open>\<^verbatim>\<open>while (lastRight < w + SPAWN_AHEAD) { ... }\<close> in \<^verbatim>\<open>frame\<close>.\<close>

function genLoop :: "rat \<Rightarrow> rat \<Rightarrow> RunnerSettings \<Rightarrow> rat
    \<Rightarrow> rat \<times> Platform list \<times> Coin list \<times> Obstacle list \<Rightarrow> rat list
    \<Rightarrow> ((rat \<times> Platform list \<times> Coin list \<times> Obstacle list) \<times> rat list) option" where
  "genLoop w h s gy st us =
     (if fst st < w + SPAWN_AHEAD then
        (case genOne h s gy st us of
           None \<Rightarrow> None
         | Some (st', us') \<Rightarrow> genLoop w h s gy st' us')
      else Some (st, us))"
  by pat_completeness auto
termination
  by (relation "measure (\<lambda>(w, h, s, gy, st, us). length us)") (auto dest: genOne_shorter)

declare genLoop.simps [simp del]

text \<open>
  The scan \<^verbatim>\<open>// Track the rightmost platform edge\<close>, which starts from \<open>0\<close>.
\<close>

definition lastRightOf :: "Platform list \<Rightarrow> rat" where
  "lastRightOf ps = fold (\<lambda>p lr. if platX p + platW p > lr then platX p + platW p else lr) ps 0"

text \<open>The generation pass of a playing frame on a canvas of \<open>w\<close> by \<open>h\<close>.\<close>

definition generateAhead :: "rat \<Rightarrow> rat \<Rightarrow> RunnerSettings \<Rightarrow> Runner \<Rightarrow> rat list
    \<Rightarrow> (Runner \<times> rat list) option" where
  "generateAhead w h s game us =
     (case genLoop w h s (groundY game)
             (lastRightOf (platforms game), platforms game, coins game, obstacles game) us of
        None \<Rightarrow> None
      | Some ((lr, ps, cs, os), us') \<Rightarrow>
          Some (game\<lparr>platforms := ps, coins := cs, obstacles := os\<rparr>, us'))"

text \<open>
  The loop of \<^verbatim>\<open>initGame\<close> that builds the initial platforms; it draws no coin and no
  obstacle (those are added afterwards, platform by platform).
\<close>

function initLoop :: "rat \<Rightarrow> rat \<Rightarrow> RunnerSettings \<Rightarrow> rat \<Rightarrow> rat \<times> Platform list \<Rightarrow> rat list
    \<Rightarrow> ((rat \<times> Platform list) \<times> rat list) option" where
  "initLoop canvasW canvasH s gy st us =
     (if fst st < canvasW + SPAWN_AHEAD then
        (case us of
           u1 # u2 # u3 # us1 \<Rightarrow>
             (let p = newPlatform canvasH s gy (fst st) u1 u2 u3 in
              initLoop canvasW canvasH s gy (platX p + platW p, snd st @ [p]) us1)
         | _ \<Rightarrow> None)
      else Some (st, us))"
  by pat_completeness auto
termination
  by (relation "measure (\<lambda>(cw, ch, s, gy, st, us). length us)") auto

declare initLoop.simps [simp del]

definition initPlatforms :: "rat \<Rightarrow> rat \<Rightarrow> RunnerSettings \<Rightarrow> rat list
    \<Rightarrow> (Platform list \<times> rat list) option" where
  "initPlatforms canvasW canvasH s us =
     (let gy = of_int \<lfloor>canvasH * (75 / 100)\<rfloor> in
      case initLoop canvasW canvasH s gy (300, [\<lparr>platX = 0, platY = gy, platW = 300\<rparr>]) us of
        None \<Rightarrow> None
      | Some ((lr, ps), us') \<Rightarrow> Some (ps, us'))"

section \<open>Predicates used in the statements\<close>

text \<open>A line of \<open>n\<close> cells holds no three consecutive equal values.\<close>

definition noTriple :: "(nat \<Rightarrow> int) \<Rightarrow> nat \<Rightarrow> bool" where
  "noTriple cell n = (\<forall>i<n. i + 2 < n \<longrightarrow> \<not> (cell i = cell (i + 1) \<and> cell (i + 1) = cell (i + 2)))"

text \<open>
  The test of the \<^verbatim>\<open>do ... while\<close> loop of \<^verbatim>\<open>createBoard\<close>, read on a placed cell, and the
  shape of the grid while row \<open>r\<close> is being filled and once \<open>r\<close> rows are complete.
\<close>

definition okCell :: "int list list \<Rightarrow> nat \<Rightarrow> nat \<Rightarrow> bool" where
  "okCell g r c =
     (\<not> (c \<ge> 2 \<and> g ! r ! (c - 1) = g ! r ! c \<and> g ! r ! (c - 2) = g ! r ! c) \<and>
      \<not> (r \<ge> 2 \<and> g ! (r - 1) ! c = g ! r ! c \<and> g ! (r - 2) ! c = g ! r ! c))"

definition building :: "nat \<Rightarrow> int list list \<Rightarrow> nat \<Rightarrow> nat \<Rightarrow> bool" where
  "building sz g r c =
     (length g = Suc r \<and> length (g ! r) = c \<and> (\<forall>r'<r. length (g ! r') = sz) \<and>
      (\<forall>r'<r. \<forall>c'<sz. okCell g r' c') \<and> (\<forall>c'<c. okCell g r c'))"

definition built :: "nat \<Rightarrow> int list list \<Rightarrow> nat \<Rightarrow> bool" where
  "built sz g r =
     (length g = r \<and> (\<forall>r'<r. length (g ! r') = sz) \<and> (\<forall>r'<r. \<forall>c'<sz. okCell g r' c'))"

text \<open>A cell position that lies inside the grid.\<close>

definition inGrid :: "int list list \<Rightarrow> CellPos \<Rightarrow> bool" where
  "inGrid g p = (row p < length g \<and> col p < length (g ! row p))"

text \<open>Sample data: a board of the easy preset and the draws that build it.\<close>

definition boardA :: "int list list" where
  "boardA = [[0, 0, 4, 0, 2, 4, 0], [4, 1, 0, 0, 3, 3, 0], [1, 0, 4, 3, 0, 4, 1],
             [4, 0, 4, 4, 3, 0, 1], [0, 4, 1, 2, 3, 1, 4], [0, 4, 2, 4, 1, 0, 4],
             [4, 1, 2, 0, 4, 0, 0]]"

definition drawsA :: "rat list" where
  "drawsA = [0, 0, 1 / 10, 1 / 20, 1 / 10, 17 / 20, 3 / 20, 11 / 20, 9 / 10, 1 / 20, 4 / 5,
             3 / 10, 1 / 20, 1 / 10, 13 / 20, 13 / 20, 1 / 10, 7 / 20, 1 / 10, 17 / 20, 13 / 20,
             1 / 20, 9 / 10, 3 / 20, 7 / 20, 9 / 10, 1 / 20, 9 / 10, 9 / 10, 3 / 5, 1 / 20,
             7 / 20, 1 / 20, 17 / 20, 1 / 5, 9 / 20, 13 / 20, 1 / 5, 17 / 20, 3 / 20, 9 / 10,
             9 / 20, 17 / 20, 1 / 4, 3 / 20, 9 / 10, 9 / 10, 3 / 10, 11 / 20, 3 / 20, 17 / 20,
             1 / 10, 9 / 10, 1 / 20]"

text \<open>
  A board on which equal gems are never closer than five cells apart in a row or a column,
  and a game that has just been asked to swap its two top-left cells.
\<close>

definition boardB :: "int list list" where
  "boardB = [[0, 1, 2, 3, 4, 0, 1], [2, 3, 4, 0, 1, 2, 3], [4, 0, 1, 2, 3, 4, 0],
             [1, 2, 3, 4, 0, 1, 2], [3, 4, 0, 1, 2, 3, 4], [0, 1, 2, 3, 4, 0, 1],
             [2, 3, 4, 0, 1, 2, 3]]"

definition gameB :: "AnimState \<Rightarrow> Game" where
  "gameB a = \<lparr>grid = boardB, score = 0, timeRemaining = 180, cascadeLevel = 0, selected = None,
              animState = a, animStart = 0, swapFrom = \<lparr>row = 0, col = 0\<rparr>,
              swapTo = \<lparr>row = 0, col = 1\<rparr>, matchedCells = [], fallData = [],
              lastInteraction = 0, lastTickTime = 0, hintMove = None\<rparr>"

text \<open>
  Draws on which every Fisher-Yates pass picks \<open>j = i\<close> at each step (one hundred passes of
  48 draws on a board of 49 cells), followed by the 49 draws that make \<^verbatim>\<open>createBoard\<close> build
  \<open>boardB\<close>.
\<close>

definition stuckDraws :: "rat list" where
  "stuckDraws = concat (replicate 100 (replicate 48 (99 / 100))) @
     [0, 1 / 5, 2 / 5, 3 / 5, 4 / 5, 0, 1 / 5,
      2 / 5, 3 / 5, 4 / 5, 0, 1 / 5, 2 / 5, 3 / 5,
      4 / 5, 0, 1 / 5, 2 / 5, 3 / 5, 4 / 5, 0,
      1 / 5, 2 / 5, 3 / 5, 4 / 5, 0, 1 / 5, 2 / 5,
      3 / 5, 4 / 5, 0, 1 / 5, 2 / 5, 3 / 5, 4 / 5,
      0, 1 / 5, 2 / 5, 3 / 5, 4 / 5, 0, 1 / 5,
      2 / 5, 3 / 5, 4 / 5, 0, 1 / 5, 2 / 5, 3 / 5]"

text \<open>
  An \<open>n \<times> n\<close> grid, column \<open>c\<close> of a grid read from the top row down, and the gems of a
  column that are not empty cells (a negative value marks an empty cell).
\<close>

definition square :: "nat \<Rightarrow> int list list \<Rightarrow> bool" where
  "square n g = (length g = n \<and> list_all (\<lambda>r. length r = n) g)"

definition column :: "int list list \<Rightarrow> nat \<Rightarrow> int list" where
  "column g c = map (\<lambda>r. g ! r ! c) [0..<length g]"

definition survivors :: "int list list \<Rightarrow> nat \<Rightarrow> int list" where
  "survivors g c = filter (\<lambda>v. v \<ge> 0) (column g c)"

text \<open>
  The number of \<^verbatim>\<open>Math.random()\<close> calls that \<^verbatim>\<open>applyGravity\<close> makes from column \<open>c\<close> on: one
  for every empty cell.
\<close>

definition drawsNeeded :: "int list list \<Rightarrow> nat \<Rightarrow> nat" where
  "drawsNeeded gr c = sum_list (map (\<lambda>k. length gr - length (survivors gr k)) [c..<length gr])"

text \<open>A small grid with four empty cells.\<close>

definition boardC :: "int list list" where
  "boardC = [[1, - 1, 2], [- 1, - 1, 0], [3, 1, - 1]]"

text \<open>Some platform of the list ends at or beyond \<open>w + SPAWN_AHEAD\<close>.\<close>

definition reaches :: "rat \<Rightarrow> Platform list \<Rightarrow> bool" where
  "reaches w ps = list_ex (\<lambda>p. w + SPAWN_AHEAD \<le> platX p + platW p) ps"

text \<open>
  Space Invaders, in the words of the specification: an alien moved to \<open>nx\<close> stays inside
  when its whole width lies in \<open>[4, w - 4]\<close>, and the formation would leave when some alive
  alien, moved one step further in the current direction, does not stay inside.
\<close>

definition staysInside :: "rat \<Rightarrow> Alien \<Rightarrow> rat \<Rightarrow> bool" where
  "staysInside w a nx = (4 \<le> nx \<and> nx + alienW a \<le> w - 4)"

definition wouldLeave :: "rat \<Rightarrow> InvadersSettings \<Rightarrow> Invaders \<Rightarrow> bool" where
  "wouldLeave w s game =
     list_ex (\<lambda>a. alive a \<and> \<not> staysInside w a (alienX a + of_int (alienDir game) * alienSpeed s))
       (aliens game)"

text \<open>Sample data for the other games.\<close>

definition snakeMenu :: SnakeWorld where
  "snakeMenu = \<lparr>snakeState = Menu, snake = [], food = \<lparr>x = 0, y = 0\<rparr>, dir = Right,
                nextDir = Right, snakeScore = 0\<rparr>"

definition SNAKE_medium :: SnakeSettings where
  "SNAKE_medium = \<lparr>speed = 12, snakeGridSize = 20, wallTeleport = False\<rparr>"

definition flappyFalling :: Flappy where
  "flappyFalling = \<lparr>flappyState = FlappyPlaying,
     bird = \<lparr>birdX = 100, birdY = 200, velocity = 63 / 10, rotation = 0, wingPhase = 0\<rparr>,
     pipes = [], flappyScore = 0, frameCount = 14\<rparr>"

definition alienAt :: "rat \<Rightarrow> bool \<Rightarrow> Alien" where
  "alienAt ax al = \<lparr>alienRow = 0, alienCol = 0, alienX = ax, alienY = 60, alienW = 28,
                    alienH = 22, alive = al, alienType = 0, animFrame = 0\<rparr>"

definition invadersAtEdge :: Invaders where
  "invadersAtEdge = \<lparr>aliens = [alienAt 700 True, alienAt 760 True, alienAt 798 False],
                     alienDir = 1, stepTimer = 590, stepInterval = 600, alienAnimFrame = 0\<rparr>"

definition INVADERS_medium :: InvadersSettings where
  "INVADERS_medium = \<lparr>alienSpeed = 14, alienDropPx = 20\<rparr>"

definition runnerStart :: Runner where
  "runnerStart = \<lparr>platforms = [\<lparr>platX = 0, platY = 450, platW = 300\<rparr>], obstacles = [],
                  coins = [], groundY = 450\<rparr>"

text \<open>
  Draws in which every \<open>K\<close> consecutive ones give at least three different gems, and the
  draws that cycle through the gems 0, 1 and 2.
\<close>

fun varied :: "nat \<Rightarrow> nat \<Rightarrow> rat list \<Rightarrow> bool" where
  "varied K types [] = True"
| "varied K types (u # us) =
     ((K \<le> length (u # us) \<longrightarrow>
         3 \<le> length (remdups (map (randomGem types) (take K (u # us))))) \<and>
      varied K types us)"

definition cycleDraws :: "nat \<Rightarrow> nat \<Rightarrow> rat list" where
  "cycleDraws types k = concat (replicate k [0, 1 / of_nat types, 2 / of_nat types])"

text \<open>
  A stored string read as white space, an optional sign, decimal digits and a rest, where
  the rest starts with no character that the part before it takes; the number that a string
  of decimal digits denotes; the integers that are doubles (a significand of at most 53 bits
  times a power of two), those of 53 bits with an even significand, and rounding to the
  nearest double, ties to even.
\<close>

definition parsedAs :: "jsstring \<Rightarrow> jsstring \<Rightarrow> jsstring \<Rightarrow> jsstring \<Rightarrow> bool" where
  "parsedAs ws sg ds rest =
     (list_all isWhite ws \<and> (sg = [] \<or> sg = [45] \<or> sg = [43]) \<and> list_all isDigit ds \<and>
      (case rest of
         [] \<Rightarrow> True
       | c # _ \<Rightarrow> \<not> isDigit c \<and> (sg = [] \<and> ds = [] \<longrightarrow> \<not> isWhite c \<and> c \<noteq> 45 \<and> c \<noteq> 43)))"

definition decimalValue :: "jsstring \<Rightarrow> int" where
  "decimalValue ds = (\<Sum>i<length ds. (int (ds ! i) - 48) * 10 ^ (length ds - 1 - i))"

definition isDoubleInt :: "int \<Rightarrow> bool" where
  "isDoubleInt m = (\<exists>q. \<exists>e::nat. m = q * 2 ^ e \<and> 0 \<le> q \<and> q < 2 ^ 53)"

definition evenDouble :: "int \<Rightarrow> bool" where
  "evenDouble m = (\<exists>q. \<exists>e::nat. m = q * 2 ^ e \<and> 2 ^ 52 \<le> q \<and> q < 2 ^ 53 \<and> even q)"

definition roundsTo :: "int \<Rightarrow> int \<Rightarrow> bool" where
  "roundsTo n m =
     (isDoubleInt m \<and>
      (\<forall>m'. isDoubleInt m' \<and> m' \<noteq> m \<longrightarrow>
         \<bar>n - m\<bar> < \<bar>n - m'\<bar> \<or> (\<bar>n - m\<bar> = \<bar>n - m'\<bar> \<and> evenDouble m)))"

section \<open>Match-Three: a fresh board has no match\<close>

lemma scanRun_le: "e \<le> n \<Longrightarrow> scanRun cell n t e \<le> n"
proof (induction cell n t e rule: scanRun.induct)
  case (1 cell n t e)
  show ?case
  proof (cases "e < n \<and> cell e = t")
    case True
    with 1 have "scanRun cell n t (Suc e) \<le> n" by simp
    with True show ?thesis by (subst scanRun.simps) auto
  next
    case False
    with 1 show ?thesis by (subst scanRun.simps) auto
  qed
qed

lemma scanRun_all: "e \<le> i \<Longrightarrow> i < scanRun cell n t e \<Longrightarrow> cell i = t"
proof (induction cell n t e rule: scanRun.induct)
  case (1 cell n t e)
  show ?case
  proof (cases "e < n \<and> cell e = t")
    case True
    then have eq: "scanRun cell n t e = scanRun cell n t (Suc e)"
      by (subst scanRun.simps) simp
    show ?thesis
    proof (cases "i = e")
      case True
      with \<open>e < n \<and> cell e = t\<close> show ?thesis by simp
    next
      case False
      with 1 True eq show ?thesis by simp
    qed
  next
    case False
    then have "scanRun cell n t e = e" by (subst scanRun.simps) auto
    with 1 show ?thesis by simp
  qed
qed

lemma scanLine_noTriple: "noTriple cell n \<Longrightarrow> scanLine cell pos n c = []"
proof (induction cell pos n c rule: scanLine.induct)
  case (1 cell pos n c)
  show ?case
  proof (cases "c < n")
    case False
    then show ?thesis by (subst scanLine.simps) simp
  next
    case cn: True
    show ?thesis
    proof (cases "cell c < 0")
      case True
      with 1 cn show ?thesis by (subst scanLine.simps) simp
    next
      case False
      let ?e = "scanRun cell n (cell c) (Suc c)"
      have short: "\<not> 3 \<le> ?e - c"
      proof
        assume "3 \<le> ?e - c"
        then have a: "Suc c < ?e" "Suc (Suc c) < ?e" by auto
        have "?e \<le> n" using cn by (intro scanRun_le) simp
        with a have "c + 2 < n" by simp
        moreover have "cell (Suc c) = cell c" using a(1) by (intro scanRun_all[of "Suc c"]) auto
        moreover have "cell (Suc (Suc c)) = cell c" using a(2) by (intro scanRun_all[of "Suc c"]) auto
        moreover from 1(3) cn
        have "c + 2 < n \<longrightarrow> \<not> (cell c = cell (c + 1) \<and> cell (c + 1) = cell (c + 2))"
          unfolding noTriple_def by blast
        ultimately show False by simp
      qed
      have "scanLine cell pos n ?e = []" using 1(2)[OF cn False] 1(3) by simp
      with cn False short show ?thesis by (subst scanLine.simps) simp
    qed
  qed
qed

lemma pickGem_accepts:
  "pickGem g r c types us = Some (gem, us') \<Longrightarrow>
     \<not> (c \<ge> 2 \<and> g ! r ! (c - 1) = gem \<and> g ! r ! (c - 2) = gem) \<and>
     \<not> (r \<ge> 2 \<and> g ! (r - 1) ! c = gem \<and> g ! (r - 2) ! c = gem)"
  by (induction us) (auto simp: Let_def split: if_splits)

lemma okCell_cong:
  assumes "g' ! r = g ! r" "r \<ge> 1 \<Longrightarrow> g' ! (r - 1) = g ! (r - 1)" "r \<ge> 2 \<Longrightarrow> g' ! (r - 2) = g ! (r - 2)"
  shows "okCell g' r c = okCell g r c"
  using assms unfolding okCell_def by auto

lemma building_step:
  assumes b: "building sz g r c"
    and ok: "\<not> (c \<ge> 2 \<and> g ! r ! (c - 1) = gem \<and> g ! r ! (c - 2) = gem)"
            "\<not> (r \<ge> 2 \<and> g ! (r - 1) ! c = gem \<and> g ! (r - 2) ! c = gem)"
  shows "building sz (g[r := g ! r @ [gem]]) r (Suc c)"
proof -
  let ?g = "g[r := g ! r @ [gem]]"
  from b have len: "length g = Suc r" and lr: "length (g ! r) = c"
    and rows: "\<forall>r'<r. length (g ! r') = sz"
    and old: "\<forall>r'<r. \<forall>c'<sz. okCell g r' c'" and cur: "\<forall>c'<c. okCell g r c'"
    by (auto simp: building_def)
  have same: "?g ! r' = g ! r'" if "r' < r" for r' using that by simp
  have new: "?g ! r = g ! r @ [gem]" using len by simp
  have 1: "okCell ?g r' c'" if "r' < r" "c' < sz" for r' c'
  proof -
    have "okCell ?g r' c' = okCell g r' c'" using that by (intro okCell_cong) auto
    with old that show ?thesis by simp
  qed
  have 2: "okCell ?g r c'" if "c' < c" for c'
  proof -
    from cur that have "okCell g r c'" by simp
    with that lr show ?thesis
      unfolding okCell_def new by (auto simp: nth_append same)
  qed
  have 3: "okCell ?g r c"
    using ok lr unfolding okCell_def new by (auto simp: nth_append same)
  have 4: "okCell ?g r c'" if "c' < Suc c" for c'
    using 2 3 that by (cases "c' = c") auto
  show ?thesis
    unfolding building_def using len lr rows 1 4 by (auto simp: same)
qed

lemma fillRow_building:
  "fillRow g r c sz types us = Some (g', us') \<Longrightarrow> building sz g r c \<Longrightarrow> c \<le> sz \<Longrightarrow>
     building sz g' r sz"
proof (induction g r c sz types us rule: fillRow.induct)
  case (1 g r c sz types us)
  show ?case
  proof (cases "c < sz")
    case False
    with 1(2) have "g' = g" by (subst (asm) fillRow.simps) simp
    with False 1(3,4) show ?thesis by simp
  next
    case True
    with 1(2) obtain gem us1 where p: "pickGem g r c types us = Some (gem, us1)"
      and f: "fillRow (g[r := g ! r @ [gem]]) r (Suc c) sz types us1 = Some (g', us')"
      by (subst (asm) fillRow.simps) (auto split: option.splits)
    from pickGem_accepts[OF p] 1(3)
    have "building sz (g[r := g ! r @ [gem]]) r (Suc c)" by (intro building_step) auto
    with 1(1)[OF True p refl f] True show ?thesis by simp
  qed
qed

lemma built_start: "built sz g r \<Longrightarrow> building sz (g @ [[]]) r 0"
  unfolding built_def building_def
proof (intro conjI allI impI)
  fix r' c' assume a: "length g = r \<and> (\<forall>r'<r. length (g ! r') = sz) \<and> (\<forall>r'<r. \<forall>c'<sz. okCell g r' c')"
    and "r' < r" "c' < sz"
  then have "okCell (g @ [[]]) r' c' = okCell g r' c'"
    by (intro okCell_cong) (auto simp: nth_append)
  with a \<open>r' < r\<close> \<open>c' < sz\<close> show "okCell (g @ [[]]) r' c'" by simp
qed (auto simp: nth_append)

lemma building_done: "building sz g r sz \<Longrightarrow> built sz g (Suc r)"
  unfolding built_def building_def by (auto simp: less_Suc_eq)

lemma fillRows_built:
  "fillRows g r sz types us = Some (g', us') \<Longrightarrow> built sz g r \<Longrightarrow> r \<le> sz \<Longrightarrow> built sz g' sz"
proof (induction g r sz types us rule: fillRows.induct)
  case (1 g r sz types us)
  show ?case
  proof (cases "r < sz")
    case False
    with 1(2) have "g' = g" by (subst (asm) fillRows.simps) simp
    with False 1(3,4) show ?thesis by simp
  next
    case True
    with 1(2) obtain g1 us1 where f: "fillRow (g @ [[]]) r 0 sz types us = Some (g1, us1)"
      and fs: "fillRows g1 (Suc r) sz types us1 = Some (g', us')"
      by (subst (asm) fillRows.simps) (auto split: option.splits)
    have "building sz g1 r sz"
      using fillRow_building[OF f built_start[OF 1(3)]] by simp
    then have "built sz g1 (Suc r)" by (rule building_done)
    with 1(1)[OF True f refl fs] True show ?thesis by simp
  qed
qed

lemma createBoard_built: "createBoard sz types us = Some (g, us') \<Longrightarrow> built sz g sz"
  unfolding createBoard_def by (erule fillRows_built) (auto simp: built_def)

lemma built_row_noTriple:
  assumes "built sz g sz" "r < sz"
  shows "noTriple (\<lambda>i. g ! r ! i) sz"
  unfolding noTriple_def
proof (intro allI impI notI)
  fix i assume "i < sz" "i + 2 < sz"
    and e: "g ! r ! i = g ! r ! (i + 1) \<and> g ! r ! (i + 1) = g ! r ! (i + 2)"
  with assms have "okCell g r (i + 2)" by (simp add: built_def)
  with e show False by (simp add: okCell_def)
qed

lemma built_col_noTriple:
  assumes "built sz g sz" "c < sz"
  shows "noTriple (\<lambda>i. g ! i ! c) sz"
  unfolding noTriple_def
proof (intro allI impI notI)
  fix i assume "i < sz" "i + 2 < sz"
    and e: "g ! i ! c = g ! (i + 1) ! c \<and> g ! (i + 1) ! c = g ! (i + 2) ! c"
  with assms have "okCell g (i + 2) c" by (simp add: built_def)
  with e show False by (simp add: okCell_def)
qed

lemma findMatches_noTriple:
  assumes "length g = n" "\<forall>r<n. noTriple (\<lambda>i. g ! r ! i) n" "\<forall>c<n. noTriple (\<lambda>i. g ! i ! c) n"
  shows "findMatches g = []"
  using assms by (simp add: findMatches_def Let_def scanLine_noTriple)

text \<open>
  When does \<^verbatim>\<open>createBoard\<close> return? At a cell at most two gems are rejected, the one of the
  two cells to the left and the one of the two cells above. So among draws that give three
  different gems one is accepted, and on varied draws every cell is filled after at most
  \<open>K\<close> draws.
\<close>

lemma varied_drop: "varied K types us \<Longrightarrow> varied K types (drop m us)"
proof (induction us arbitrary: m)
  case Nil
  then show ?case by simp
next
  case (Cons u us)
  show ?case
  proof (cases m)
    case 0
    with Cons.prems show ?thesis by simp
  next
    case (Suc k)
    from Cons.prems have "varied K types us" by simp
    from Cons.IH[OF this, of k] Suc show ?thesis by simp
  qed
qed

lemma varied_window:
  assumes v: "varied K types us" and K: "0 < K" "K \<le> length us"
  shows "3 \<le> card (randomGem types ` set (take K us))"
proof (cases us)
  case Nil
  with K show ?thesis by simp
next
  case (Cons u us')
  with v K(2) have "3 \<le> length (remdups (map (randomGem types) (take K us)))" by simp
  then show ?thesis by (simp add: length_remdups_card_conv)
qed

lemma pickGem_first:
  assumes "dr \<in> set (take K us)"
    and "\<not> ((c \<ge> 2 \<and> g ! r ! (c - 1) = randomGem types dr \<and> g ! r ! (c - 2) = randomGem types dr) \<or>
            (r \<ge> 2 \<and> g ! (r - 1) ! c = randomGem types dr \<and> g ! (r - 2) ! c = randomGem types dr))"
  shows "\<exists>gem m. m < K \<and> pickGem g r c types us = Some (gem, drop (Suc m) us)"
  using assms
proof (induction us arbitrary: K)
  case Nil
  then show ?case by simp
next
  case (Cons u us)
  from Cons.prems(1) obtain K' where K: "K = Suc K'" by (cases K) auto
  let ?rej = "\<lambda>gem. (c \<ge> 2 \<and> g ! r ! (c - 1) = gem \<and> g ! r ! (c - 2) = gem) \<or>
            (r \<ge> 2 \<and> g ! (r - 1) ! c = gem \<and> g ! (r - 2) ! c = gem)"
  show ?case
  proof (cases "?rej (randomGem types u)")
    case False
    then have "pickGem g r c types (u # us) = Some (randomGem types u, drop (Suc 0) (u # us))"
      by (auto simp: Let_def)
    with K show ?thesis by blast
  next
    case True
    with Cons.prems(2) have "dr \<noteq> u" by blast
    with Cons.prems(1) K have "dr \<in> set (take K' us)" by simp
    from Cons.IH[OF this Cons.prems(2)] obtain gem m where
      m: "m < K'" "pickGem g r c types us = Some (gem, drop (Suc m) us)" by blast
    from True m(2) have "pickGem g r c types (u # us) = Some (gem, drop (Suc (Suc m)) (u # us))"
      by (auto simp: Let_def)
    with m(1) K show ?thesis by blast
  qed
qed

lemma pickGem_total:
  assumes v: "varied K types us" and K: "0 < K" "K \<le> length us"
  shows "\<exists>gem m. m < K \<and> pickGem g r c types us = Some (gem, drop (Suc m) us)"
proof -
  let ?S = "randomGem types ` set (take K us)"
  have "\<not> ?S \<subseteq> {g ! r ! (c - 1), g ! (r - 1) ! c}"
  proof
    assume "?S \<subseteq> {g ! r ! (c - 1), g ! (r - 1) ! c}"
    then have "card ?S \<le> card {g ! r ! (c - 1), g ! (r - 1) ! c}" by (intro card_mono) simp_all
    also have "\<dots> \<le> 2" by (simp add: card_insert_if)
    finally show False using varied_window[OF v K] by simp
  qed
  then obtain dr where dr: "dr \<in> set (take K us)" "randomGem types dr \<noteq> g ! r ! (c - 1)"
    "randomGem types dr \<noteq> g ! (r - 1) ! c" by auto
  from dr(2,3) have "\<not> ((c \<ge> 2 \<and> g ! r ! (c - 1) = randomGem types dr \<and> g ! r ! (c - 2) = randomGem types dr) \<or>
            (r \<ge> 2 \<and> g ! (r - 1) ! c = randomGem types dr \<and> g ! (r - 2) ! c = randomGem types dr))"
    by auto
  from pickGem_first[OF dr(1) this] show ?thesis .
qed

lemma fillRow_total:
  assumes K: "0 < K"
  shows "varied K types us \<Longrightarrow> K * (sz - c) + d \<le> length us \<Longrightarrow>
     \<exists>g' us'. fillRow g r c sz types us = Some (g', us') \<and> varied K types us' \<and> d \<le> length us'"
proof (induction "sz - c" arbitrary: g c us)
  case 0
  then have "\<not> c < sz" by simp
  then have "fillRow g r c sz types us = Some (g, us)" by (simp add: fillRow.simps)
  with 0 show ?case by simp
next
  case (Suc k)
  then have lt: "c < sz" and k: "k = sz - Suc c" by simp_all
  from lt have e: "sz - c = Suc (sz - Suc c)" by simp
  from Suc.prems(2) have len: "K + (K * (sz - Suc c) + d) \<le> length us" unfolding e by simp
  then have "K \<le> length us" by simp
  from pickGem_total[OF Suc.prems(1) K this, of g r c] obtain gem m where
    m: "m < K" "pickGem g r c types us = Some (gem, drop (Suc m) us)" by blast
  have v1: "varied K types (drop (Suc m) us)" using Suc.prems(1) by (rule varied_drop)
  from m(1) len have l1: "K * (sz - Suc c) + d \<le> length (drop (Suc m) us)" by simp
  from Suc.hyps(1)[OF k v1 l1, of "g[r := g ! r @ [gem]]"] obtain g' us' where
    r: "fillRow (g[r := g ! r @ [gem]]) r (Suc c) sz types (drop (Suc m) us) = Some (g', us')"
      "varied K types us'" "d \<le> length us'" by blast
  from lt m(2) r(1) have "fillRow g r c sz types us = Some (g', us')"
    by (subst fillRow.simps) simp
  with r(2,3) show ?case by blast
qed

lemma fillRows_total:
  assumes K: "0 < K"
  shows "varied K types us \<Longrightarrow> K * ((sz - r) * sz) + d \<le> length us \<Longrightarrow>
     \<exists>g' us'. fillRows g r sz types us = Some (g', us') \<and> d \<le> length us'"
proof (induction "sz - r" arbitrary: g r us)
  case 0
  then have "\<not> r < sz" by simp
  then have "fillRows g r sz types us = Some (g, us)" by (simp add: fillRows.simps)
  with 0 show ?case by simp
next
  case (Suc k)
  then have lt: "r < sz" and k: "k = sz - Suc r" by simp_all
  from lt have e: "sz - r = Suc (sz - Suc r)" by simp
  from Suc.prems(2) have len: "K * (sz - 0) + (K * ((sz - Suc r) * sz) + d) \<le> length us"
    unfolding e by (simp add: algebra_simps)
  from fillRow_total[OF K Suc.prems(1) len, of "g @ [[]]" r] obtain g1 us1 where
    a: "fillRow (g @ [[]]) r 0 sz types us = Some (g1, us1)" "varied K types us1"
      "K * ((sz - Suc r) * sz) + d \<le> length us1" by blast
  from Suc.hyps(1)[OF k a(2,3), of g1] obtain g' us' where
    b: "fillRows g1 (Suc r) sz types us1 = Some (g', us')" "d \<le> length us'" by blast
  from lt a(1) b(1) have "fillRows g r sz types us = Some (g', us')"
    by (subst fillRows.simps) simp
  with b(2) show ?case by blast
qed

lemma createBoard_total:
  assumes "0 < K" "varied K types us" "K * (n * n) \<le> length us"
  shows "\<exists>g us'. createBoard n types us = Some (g, us')"
proof -
  from assms(3) have "K * ((n - 0) * n) + 0 \<le> length us" by simp
  from fillRows_total[OF assms(1,2) this, of "[]"] show ?thesis
    by (auto simp: createBoard_def)
qed

lemma randomGem_exact:
  assumes "k < types"
  shows "randomGem types (of_nat k / of_nat types) = int k"
proof -
  from assms have "types \<noteq> 0" by simp
  then have "(of_nat k / of_nat types) * (of_nat types :: rat) = of_nat k" by simp
  then show ?thesis by (simp add: randomGem_def)
qed

lemma cycleDraws_gems:
  assumes "3 \<le> types"
  shows "randomGem types 0 = 0" "randomGem types (1 / of_nat types) = 1"
    "randomGem types (2 / of_nat types) = 2"
proof -
  show "randomGem types 0 = 0" by (simp add: randomGem_def)
  from assms randomGem_exact[of 1 types] show "randomGem types (1 / of_nat types) = 1" by simp
  from assms randomGem_exact[of 2 types] show "randomGem types (2 / of_nat types) = 2" by simp
qed

lemma cycleDraws_varied_aux:
  assumes "3 \<le> types"
  shows "varied 3 types (cycleDraws types k) \<and>
         varied 3 types (2 / of_nat types # cycleDraws types k) \<and>
         varied 3 types (1 / of_nat types # 2 / of_nat types # cycleDraws types k)"
proof (induction k)
  case 0
  show ?case by (simp add: cycleDraws_def)
next
  case (Suc k)
  have e: "cycleDraws types (Suc k) = 0 # 1 / of_nat types # 2 / of_nat types # cycleDraws types k"
    by (simp add: cycleDraws_def)
  note g = cycleDraws_gems[OF assms]
  from Suc have 1: "varied 3 types (cycleDraws types (Suc k))"
    unfolding e by (simp add: g numeral_3_eq_3)
  then have 2: "varied 3 types (2 / of_nat types # cycleDraws types (Suc k))"
    unfolding e by (simp add: g numeral_3_eq_3)
  then have 3: "varied 3 types (1 / of_nat types # 2 / of_nat types # cycleDraws types (Suc k))"
    unfolding e by (simp add: g numeral_3_eq_3)
  from 1 2 3 show ?case by blast
qed

lemma cycleDraws_fair:
  assumes "3 \<le> types"
  shows "unitDraws (cycleDraws types k) \<and> varied 3 types (cycleDraws types k) \<and>
         length (cycleDraws types k) = 3 * k"
proof -
  have "unitDraws (cycleDraws types k)"
  proof (induction k)
    case 0
    show ?case by (simp add: cycleDraws_def unitDraws_def)
  next
    case (Suc k)
    have e: "cycleDraws types (Suc k) = 0 # 1 / of_nat types # 2 / of_nat types # cycleDraws types k"
      by (simp add: cycleDraws_def)
    from assms Suc show ?case unfolding e by (simp add: unitDraws_def)
  qed
  moreover have "length (cycleDraws types k) = 3 * k"
    by (induction k) (simp_all add: cycleDraws_def)
  ultimately show ?thesis using cycleDraws_varied_aux[OF assms, of k] by blast
qed

text \<open>
  Some condition on the draws is needed: the \<^verbatim>\<open>do ... while\<close> loop has no bound, and when every
  draw is 0 the third cell of the first row is rejected for ever.
\<close>

lemma pickGem_rejects_all:
  "2 \<le> c \<Longrightarrow> g ! r ! (c - 1) = 0 \<Longrightarrow> g ! r ! (c - 2) = 0 \<Longrightarrow>
     pickGem g r c types (replicate j 0) = None"
  by (induction j) (auto simp: randomGem_def Let_def)

lemma createBoard_may_stall:
  assumes "3 \<le> n"
  shows "createBoard n types (replicate k 0) = None"
proof -
  have z: "randomGem types 0 = 0" by (simp add: randomGem_def)
  have 3: "fillRow [[0, 0]] 0 2 n types (replicate j 0) = None" for j
    using assms pickGem_rejects_all[of 2 "[[0, 0]]" 0 types j]
    by (subst fillRow.simps) (simp add: numeral_2_eq_2)
  have 2: "fillRow [[0]] 0 1 n types (replicate j 0) = None" for j
  proof (cases j)
    case 0
    with assms show ?thesis by (subst fillRow.simps) simp
  next
    case (Suc i)
    with assms 3[of i] show ?thesis
      by (subst fillRow.simps) (simp add: z Let_def numeral_2_eq_2)
  qed
  have 1: "fillRow [[]] 0 0 n types (replicate j 0) = None" for j
  proof (cases j)
    case 0
    with assms show ?thesis by (subst fillRow.simps) simp
  next
    case (Suc i)
    with assms 2[of i] show ?thesis by (subst fillRow.simps) (simp add: z Let_def)
  qed
  from assms 1[of k] show ?thesis
    unfolding createBoard_def by (subst fillRows.simps) simp
qed

text \<open>
  Claim C1. Whatever the size \<open>n\<close> and the number \<open>t\<close> of gem types (so in particular for
  the sizes 7 to 9 and the 5 to 7 gem types of the presets): every grid that \<^verbatim>\<open>createBoard\<close>
  returns is square, no row and no column of it holds three consecutive equal gems, and
  \<^verbatim>\<open>findMatches\<close> returns the empty list on it. And \<^verbatim>\<open>createBoard\<close> does return such a grid
  whenever the draws are varied (every \<open>K\<close> consecutive draws give at least three different
  gems) and \<open>K\<close> draws per cell are supplied; with three or more gem types such draws exist
  for every size.
\<close>

theorem createBoard_no_matches:
  "(\<forall>g us'. createBoard n t us = Some (g, us') \<longrightarrow>
      findMatches g = [] \<and> length g = n \<and> (\<forall>r<n. length (g ! r) = n) \<and>
      (\<forall>r<n. noTriple (\<lambda>i. g ! r ! i) n) \<and> (\<forall>c<n. noTriple (\<lambda>i. g ! i ! c) n)) \<and>
   (0 < K \<and> varied K t us \<and> K * (n * n) \<le> length us \<longrightarrow>
      (\<exists>g us'. createBoard n t us = Some (g, us') \<and> findMatches g = [])) \<and>
   (3 \<le> t \<longrightarrow>
      unitDraws (cycleDraws t (n * n)) \<and> varied 3 t (cycleDraws t (n * n)) \<and>
      length (cycleDraws t (n * n)) = 3 * (n * n))"
proof -
  have 1: "findMatches g = [] \<and> length g = n \<and> (\<forall>r<n. length (g ! r) = n) \<and>
      (\<forall>r<n. noTriple (\<lambda>i. g ! r ! i) n) \<and> (\<forall>c<n. noTriple (\<lambda>i. g ! i ! c) n)"
    if h: "createBoard n t us = Some (g, us')" for g us'
  proof -
    from createBoard_built[OF h] have b: "built n g n" .
    then have len: "length g = n" and rows: "\<forall>r<n. length (g ! r) = n"
      by (simp_all add: built_def)
    have r: "\<forall>r<n. noTriple (\<lambda>i. g ! r ! i) n" using b by (simp add: built_row_noTriple)
    have c: "\<forall>c<n. noTriple (\<lambda>i. g ! i ! c) n" using b by (simp add: built_col_noTriple)
    from findMatches_noTriple[OF len r c] len rows r c show ?thesis by simp
  qed
  have 2: "0 < K \<and> varied K t us \<and> K * (n * n) \<le> length us \<longrightarrow>
      (\<exists>g us'. createBoard n t us = Some (g, us') \<and> findMatches g = [])"
  proof
    assume a: "0 < K \<and> varied K t us \<and> K * (n * n) \<le> length us"
    then obtain g us' where h: "createBoard n t us = Some (g, us')"
      using createBoard_total[of K t us n] by blast
    with 1[OF h] show "\<exists>g us'. createBoard n t us = Some (g, us') \<and> findMatches g = []"
      by blast
  qed
  have 3: "3 \<le> t \<longrightarrow>
      unitDraws (cycleDraws t (n * n)) \<and> varied 3 t (cycleDraws t (n * n)) \<and>
      length (cycleDraws t (n * n)) = 3 * (n * n)"
    using cycleDraws_fair[of t "n * n"] by blast
  from 1 2 3 show ?thesis by blast
qed

theorem createBoard_no_matches_witness:
  "createBoard 7 5 drawsA = Some (boardA, []) \<and> findMatches boardA = [] \<and> length boardA = 7 \<and>
   (\<exists>g us'. createBoard 7 5 (cycleDraws 5 49) = Some (g, us') \<and> findMatches g = []) \<and>
   (\<exists>g us'. createBoard 8 6 (cycleDraws 6 64) = Some (g, us') \<and> findMatches g = []) \<and>
   (\<exists>g us'. createBoard 9 7 (cycleDraws 7 81) = Some (g, us') \<and> findMatches g = [])"
proof -
  have h: "createBoard 7 5 drawsA = Some (boardA, [])"
    unfolding drawsA_def boardA_def by code_simp
  have a: "findMatches boardA = [] \<and> length boardA = 7"
    using createBoard_no_matches[of 7 5 drawsA 3] h by blast
  have w1: "0 < (3::nat) \<and> varied 3 5 (cycleDraws 5 49) \<and> 3 * (7 * 7) \<le> length (cycleDraws 5 49)"
    unfolding cycleDraws_def by code_simp
  have w2: "0 < (3::nat) \<and> varied 3 6 (cycleDraws 6 64) \<and> 3 * (8 * 8) \<le> length (cycleDraws 6 64)"
    unfolding cycleDraws_def by code_simp
  have w3: "0 < (3::nat) \<and> varied 3 7 (cycleDraws 7 81) \<and> 3 * (9 * 9) \<le> length (cycleDraws 7 81)"
    unfolding cycleDraws_def by code_simp
  have b: "\<exists>g us'. createBoard 7 5 (cycleDraws 5 49) = Some (g, us') \<and> findMatches g = []"
    using createBoard_no_matches[of 7 5 "cycleDraws 5 49" 3] w1 by blast
  have c: "\<exists>g us'. createBoard 8 6 (cycleDraws 6 64) = Some (g, us') \<and> findMatches g = []"
    using createBoard_no_matches[of 8 6 "cycleDraws 6 64" 3] w2 by blast
  have d: "\<exists>g us'. createBoard 9 7 (cycleDraws 7 81) = Some (g, us') \<and> findMatches g = []"
    using createBoard_no_matches[of 9 7 "cycleDraws 7 81" 3] w3 by blast
  from h a b c d show ?thesis by blast
qed

section \<open>Match-Three: a swap without a match is undone\<close>

lemma setCell_length [simp]: "length (setCell g r c v) = length g"
  by (simp add: setCell_def)

lemma setCell_nth:
  "r' < length g \<Longrightarrow> setCell g r c v ! r' = (if r' = r then (g ! r)[c := v] else g ! r')"
  by (simp add: setCell_def)

lemma swapCells_twice:
  assumes "inGrid g sf" "inGrid g st"
  shows "swapCells (swapCells g sf st) sf st = g"
proof (rule nth_equalityI)
  show "length (swapCells (swapCells g sf st) sf st) = length g"
    by (simp add: swapCells_def Let_def)
next
  fix i assume "i < length (swapCells (swapCells g sf st) sf st)"
  then have i: "i < length g" by (simp add: swapCells_def Let_def)
  show "swapCells (swapCells g sf st) sf st ! i = g ! i"
  proof (rule nth_equalityI)
    show "length (swapCells (swapCells g sf st) sf st ! i) = length (g ! i)"
      using i assms by (auto simp: swapCells_def Let_def setCell_nth inGrid_def)
  next
    fix j assume "j < length (swapCells (swapCells g sf st) sf st ! i)"
    then have j: "j < length (g ! i)"
      using i assms by (auto simp: swapCells_def Let_def setCell_nth inGrid_def split: if_splits)
    show "swapCells (swapCells g sf st) sf st ! i ! j = g ! i ! j"
      using i j assms
      by (auto simp: swapCells_def Let_def setCell_nth inGrid_def nth_list_update)
  qed
qed

lemma drawTimer_fields:
  "grid (snd (drawTimer now sg)) = grid (snd sg)"
  "animState (snd (drawTimer now sg)) = animState (snd sg)"
  "animStart (snd (drawTimer now sg)) = animStart (snd sg)"
  "swapFrom (snd (drawTimer now sg)) = swapFrom (snd sg)"
  "swapTo (snd (drawTimer now sg)) = swapTo (snd sg)"
  by (auto simp: drawTimer_def Let_def split: prod.splits)

lemma draw_idle:
  assumes "animState g = Idle"
  shows "\<exists>st' g'. draw now s (st, g) us = Some ((st', g'), us) \<and> grid g' = grid g \<and>
           animState g' = Idle"
proof -
  obtain st0 g0 where t: "drawTimer now (st, g) = (st0, g0)" by (cases "drawTimer now (st, g)")
  with drawTimer_fields[of now "(st, g)"] assms
  have "grid g0 = grid g" "animState g0 = Idle" by simp_all
  with t show ?thesis
    by (simp add: draw_def stepSwapping_def stepSwappingBack_def stepClearing_def stepFalling_def)
qed

lemma draw_swappingBack:
  assumes "animState g = SwappingBack"
  shows "\<exists>st' g'. draw now s (st, g) us = Some ((st', g'), us) \<and> grid g' = grid g \<and>
           animStart g' = animStart g \<and>
           animState g' = (if now - animStart g \<ge> SWAP_MS then Idle else SwappingBack)"
proof -
  obtain st0 g0 where t: "drawTimer now (st, g) = (st0, g0)" by (cases "drawTimer now (st, g)")
  with drawTimer_fields[of now "(st, g)"] assms
  have "grid g0 = grid g" "animState g0 = SwappingBack" "animStart g0 = animStart g" by simp_all
  with t show ?thesis
    by (simp add: draw_def stepSwapping_def stepSwappingBack_def stepClearing_def stepFalling_def)
qed

lemma draw_failed_swap:
  assumes "animState g = Swapping" "now - animStart g \<ge> SWAP_MS"
    and "inGrid (grid g) (swapFrom g)" "inGrid (grid g) (swapTo g)"
    and "findMatches (swapCells (grid g) (swapFrom g) (swapTo g)) = []"
  shows "\<exists>st' g'. draw now s (st, g) us = Some ((st', g'), us) \<and> grid g' = grid g \<and>
           animStart g' = now \<and> animState g' = SwappingBack"
proof -
  obtain st0 g0 where t: "drawTimer now (st, g) = (st0, g0)" by (cases "drawTimer now (st, g)")
  with drawTimer_fields[of now "(st, g)"] assms
  have f: "grid g0 = grid g" "animState g0 = Swapping" "animStart g0 = animStart g"
    "swapFrom g0 = swapFrom g" "swapTo g0 = swapTo g" by simp_all
  have z: "\<not> (0::rat) \<ge> SWAP_MS" by (simp add: SWAP_MS_def)
  from t f assms z show ?thesis
    by (simp add: draw_def stepSwapping_def stepSwappingBack_def stepClearing_def stepFalling_def
        swapCells_twice Let_def)
qed

lemma frames_idle:
  "animState g = Idle \<Longrightarrow>
     \<exists>st' g'. drawFrames ts s (st, g) us = Some ((st', g'), us) \<and> grid g' = grid g \<and>
       animState g' = Idle"
proof (induction ts arbitrary: st g)
  case Nil
  then show ?case by simp
next
  case (Cons now ts)
  from draw_idle[OF Cons.prems, of now s st us]
  obtain st1 g1 where d: "draw now s (st, g) us = Some ((st1, g1), us)"
    and g: "grid g1 = grid g" and a: "animState g1 = Idle" by blast
  from Cons.IH[OF a, of st1] d g show ?case by simp
qed

lemma frames_swappingBack:
  "animState g = SwappingBack \<Longrightarrow>
     \<exists>st' g'. drawFrames ts s (st, g) us = Some ((st', g'), us) \<and> grid g' = grid g \<and>
       animState g' = (if \<exists>t\<in>set ts. t - animStart g \<ge> SWAP_MS then Idle else SwappingBack)"
proof (induction ts arbitrary: st g)
  case Nil
  then show ?case by simp
next
  case (Cons now ts)
  from draw_swappingBack[OF Cons.prems, of now s st us]
  obtain st1 g1 where d: "draw now s (st, g) us = Some ((st1, g1), us)"
    and g: "grid g1 = grid g" and s: "animStart g1 = animStart g"
    and a: "animState g1 = (if now - animStart g \<ge> SWAP_MS then Idle else SwappingBack)" by blast
  show ?case
  proof (cases "now - animStart g \<ge> SWAP_MS")
    case True
    with a have "animState g1 = Idle" by simp
    from frames_idle[OF this, of ts s st1 us] d g True show ?thesis by auto
  next
    case False
    with a have "animState g1 = SwappingBack" by simp
    from Cons.IH[OF this, of st1] d g s False show ?thesis by auto
  qed
qed

text \<open>
  The two handlers that start a swap leave the grid as it is and name two cells inside it:
  the swapping phase always starts from the situation of the next theorem.
\<close>

lemma inGrid_square: "square n g \<Longrightarrow> row p < n \<Longrightarrow> col p < n \<Longrightarrow> inGrid g p"
  by (simp add: inGrid_def square_def list_all_length)

lemma handleSwipe_starts_swap:
  assumes "square gs (grid game)" "row startCell < gs" "col startCell < gs"
    and "animState game = Idle"
    and "animState (handleSwipe st gs now now2 startCell dx dy game) = Swapping"
  shows "grid (handleSwipe st gs now now2 startCell dx dy game) = grid game \<and>
         animStart (handleSwipe st gs now now2 startCell dx dy game) = now2 \<and>
         inGrid (grid game) (swapFrom (handleSwipe st gs now now2 startCell dx dy game)) \<and>
         inGrid (grid game) (swapTo (handleSwipe st gs now now2 startCell dx dy game))"
proof -
  let ?tr = "int (row startCell) + (if \<bar>dx\<bar> > \<bar>dy\<bar> then 0 else if dy > 0 then 1 else - 1)"
  let ?tc = "int (col startCell) + (if \<bar>dx\<bar> > \<bar>dy\<bar> then (if dx > 0 then 1 else - 1) else 0)"
  from assms(4,5) have ok: "st = Playing" "\<not> (?tr < 0 \<or> ?tr \<ge> int gs \<or> ?tc < 0 \<or> ?tc \<ge> int gs)"
    by (auto simp: handleSwipe_def Let_def split: if_splits)
  then have "nat ?tr < gs" "nat ?tc < gs" by auto
  then have t: "inGrid (grid game) \<lparr>row = nat ?tr, col = nat ?tc\<rparr>"
    using assms(1) by (simp add: inGrid_square)
  have f: "inGrid (grid game) startCell" using assms(1,2,3) by (rule inGrid_square)
  from ok assms(4) t f show ?thesis by (simp add: handleSwipe_def Let_def)
qed

lemma handleTap_starts_swap:
  assumes "square gs (grid game)" "cell = Some c" "row c < gs" "col c < gs"
    and "selected game = Some sel" "row sel < gs" "col sel < gs"
    and "animState game = Idle"
    and "animState (handleTap st now now2 cell game) = Swapping"
  shows "grid (handleTap st now now2 cell game) = grid game \<and>
         animStart (handleTap st now now2 cell game) = now2 \<and>
         inGrid (grid game) (swapFrom (handleTap st now now2 cell game)) \<and>
         inGrid (grid game) (swapTo (handleTap st now now2 cell game))"
proof -
  have c: "inGrid (grid game) c" using assms(1,3,4) by (rule inGrid_square)
  have s: "inGrid (grid game) sel" using assms(1,6,7) by (rule inGrid_square)
  from assms(2,5,8,9) c s show ?thesis
    by (auto simp: handleTap_def Let_def split: if_splits)
qed

text \<open>
  Claim C3. A game is in the swapping phase, its two swap cells lie inside the grid, and
  swapping them produces no match. The frame at \<open>now\<close> ends the swapping phase; \<open>ts\<close> are
  the time stamps of the frames that follow, with no input between them. After these frames
  the grid is the grid from before the swap, cell for cell; the animation state is idle as
  soon as one of the later frames came \<open>SWAP_MS\<close> after \<open>now\<close>, and swapping-back until then.
  No random draw is consumed.
\<close>

theorem failed_swap_restores_grid:
  assumes "animState g = Swapping" and "now - animStart g \<ge> SWAP_MS"
    and "inGrid (grid g) (swapFrom g)" and "inGrid (grid g) (swapTo g)"
    and "findMatches (swapCells (grid g) (swapFrom g) (swapTo g)) = []"
  shows "\<exists>st' g'. drawFrames (now # ts) s (st, g) us = Some ((st', g'), us) \<and>
           grid g' = grid g \<and>
           animState g' = (if \<exists>t\<in>set ts. t - now \<ge> SWAP_MS then Idle else SwappingBack)"
proof -
  from draw_failed_swap[OF assms, of s st us]
  obtain st1 g1 where d: "draw now s (st, g) us = Some ((st1, g1), us)"
    and g: "grid g1 = grid g" and s: "animStart g1 = now" and a: "animState g1 = SwappingBack"
    by blast
  from frames_swappingBack[OF a, of ts s st1 us] d g s show ?thesis by auto
qed

theorem failed_swap_restores_grid_witness:
  "animState (gameB Swapping) = Swapping \<and> 250 - animStart (gameB Swapping) \<ge> SWAP_MS \<and>
   inGrid (grid (gameB Swapping)) (swapFrom (gameB Swapping)) \<and>
   inGrid (grid (gameB Swapping)) (swapTo (gameB Swapping)) \<and>
   findMatches (swapCells (grid (gameB Swapping)) (swapFrom (gameB Swapping))
                  (swapTo (gameB Swapping))) = [] \<and>
   (\<exists>st' g'. drawFrames [250, 300, 470] PRESET_easy (Playing, gameB Swapping) [] =
                Some ((st', g'), []) \<and> grid g' = boardB \<and> animState g' = Idle)"
proof -
  have h1: "animState (gameB Swapping) = Swapping" by (simp add: gameB_def)
  have h2: "250 - animStart (gameB Swapping) \<ge> SWAP_MS" by (simp add: gameB_def SWAP_MS_def)
  have h3: "inGrid (grid (gameB Swapping)) (swapFrom (gameB Swapping))"
    by (simp add: gameB_def inGrid_def boardB_def)
  have h4: "inGrid (grid (gameB Swapping)) (swapTo (gameB Swapping))"
    by (simp add: gameB_def inGrid_def boardB_def)
  have h5: "findMatches (swapCells (grid (gameB Swapping)) (swapFrom (gameB Swapping))
                (swapTo (gameB Swapping))) = []"
    unfolding gameB_def boardB_def by code_simp
  have g: "grid (gameB Swapping) = boardB" by (simp add: gameB_def)
  from failed_swap_restores_grid[OF h1 h2 h3 h4 h5, of "[300, 470]" PRESET_easy Playing "[]"]
  have "\<exists>st' g'. drawFrames [250, 300, 470] PRESET_easy (Playing, gameB Swapping) [] =
                Some ((st', g'), []) \<and> grid g' = boardB \<and> animState g' = Idle"
    by (simp add: SWAP_MS_def g)
  with h1 h2 h3 h4 h5 show ?thesis by blast
qed

section \<open>Match-Three: the reshuffle after a settle\<close>

lemma boardB_no_matches: "findMatches boardB = []"
  unfolding boardB_def by code_simp

lemma boardB_no_move: "findValidMove boardB = None"
  unfolding boardB_def by code_simp

lemma boardB_identity_shuffle:
  "fisherYates (concat boardB) (length (concat boardB) - 1) (replicate 48 (99 / 100) @ rest) =
     Some (concat boardB, rest)"
  unfolding boardB_def by code_simp

lemma boardB_unflatten: "unflatten (length boardB) (concat boardB) = boardB"
  unfolding boardB_def by code_simp

lemma concat_replicate_Suc_append:
  "concat (replicate (Suc k) xs) @ rest = xs @ (concat (replicate k xs) @ rest)"
  by simp

lemma boardB_attempts_fail:
  "shuffleAttempts boardB types k (concat (replicate k (replicate 48 (99 / 100))) @ rest) =
     createBoard (length boardB) types rest"
proof (induction k)
  case 0
  have "concat (replicate 0 (replicate 48 (99 / 100 :: rat))) @ rest = rest"
    by (simp only: replicate_0 concat.simps append_Nil)
  then show ?case by (simp only: shuffleAttempts.simps)
next
  case (Suc k)
  let ?rest = "concat (replicate k (replicate 48 (99 / 100 :: rat))) @ rest"
  have f: "fisherYates (concat boardB) (length (concat boardB) - 1)
             (concat (replicate (Suc k) (replicate 48 (99 / 100))) @ rest) =
           Some (concat boardB, ?rest)"
    by (simp only: concat_replicate_Suc_append boardB_identity_shuffle)
  have "shuffleAttempts boardB types (Suc k)
          (concat (replicate (Suc k) (replicate 48 (99 / 100))) @ rest) =
        shuffleAttempts boardB types k ?rest"
    by (simp only: shuffleAttempts.simps f option.case prod.case Let_def boardB_unflatten
        boardB_no_move boardB_no_matches simp_thms if_False)
  with Suc show ?case by simp
qed

lemma boardB_rebuilt:
  "createBoard 7 5
     [0, 1 / 5, 2 / 5, 3 / 5, 4 / 5, 0, 1 / 5,
      2 / 5, 3 / 5, 4 / 5, 0, 1 / 5, 2 / 5, 3 / 5,
      4 / 5, 0, 1 / 5, 2 / 5, 3 / 5, 4 / 5, 0,
      1 / 5, 2 / 5, 3 / 5, 4 / 5, 0, 1 / 5, 2 / 5,
      3 / 5, 4 / 5, 0, 1 / 5, 2 / 5, 3 / 5, 4 / 5,
      0, 1 / 5, 2 / 5, 3 / 5, 4 / 5, 0, 1 / 5,
      2 / 5, 3 / 5, 4 / 5, 0, 1 / 5, 2 / 5, 3 / 5] = Some (boardB, [])"
  unfolding boardB_def by code_simp

lemma boardB_shuffle: "shuffleBoard boardB 5 stuckDraws = Some (boardB, [])"
proof -
  have "length boardB = 7" by (simp add: boardB_def)
  then show ?thesis
    unfolding shuffleBoard_def stuckDraws_def boardB_attempts_fail
    by (simp only: boardB_rebuilt)
qed

text \<open>
  Claim C2, evaluated where the code departs from it. The falling phase of a game on
  \<open>boardB\<close> ends: the board has no match and no valid move, so \<^verbatim>\<open>shuffleBoard\<close> runs. On
  \<open>stuckDraws\<close> all hundred shuffles leave the cells where they are, and the fallback
  \<^verbatim>\<open>createBoard\<close>, whose result is not tested for a valid move, builds \<open>boardB\<close> again. The
  game returns to idle on a board without any valid move.
\<close>

theorem settle_keeps_dead_board:
  "draw 300 PRESET_easy (Playing, gameB Falling) stuckDraws =
     Some ((Playing, (gameB Idle)\<lparr>lastTickTime := 300\<rparr>), []) \<and>
   grid ((gameB Idle)\<lparr>lastTickTime := 300\<rparr>) = boardB \<and>
   findMatches boardB = [] \<and> findValidMove boardB = None \<and> unitDraws stuckDraws"
proof -
  have u: "unitDraws stuckDraws"
    by (simp add: unitDraws_def stuckDraws_def list_all_iff)
  have "draw 300 PRESET_easy (Playing, gameB Falling) stuckDraws =
     Some ((Playing, (gameB Idle)\<lparr>lastTickTime := 300\<rparr>), [])"
    by (simp add: draw_def drawTimer_def timerDt_def gameB_def stepSwapping_def
        stepSwappingBack_def stepClearing_def stepFalling_def FALL_MS_def PRESET_easy_def
        boardB_no_matches boardB_no_move boardB_shuffle)
  with u show ?thesis by (simp add: boardB_no_matches boardB_no_move gameB_def)
qed

section \<open>Match-Three: gravity\<close>

lemma square_iff: "square n g = (length g = n \<and> (\<forall>r<n. length (g ! r) = n))"
  by (auto simp: square_def list_all_length)

lemma setCell_row:
  "setCell g r c v ! i = (if i = r \<and> r < length g then (g ! r)[c := v] else g ! i)"
  by (cases "r < length g") (auto simp: setCell_def list_update_beyond)

lemma square_setCell: "square n g \<Longrightarrow> square n (setCell g r c v)"
  by (auto simp: square_iff setCell_row)

lemma column_length [simp]: "length (column g c) = length g"
  by (simp add: column_def)

lemma column_setCell_same:
  "square n g \<Longrightarrow> r < n \<Longrightarrow> c < n \<Longrightarrow> column (setCell g r c v) c = (column g c)[r := v]"
  by (rule nth_equalityI) (auto simp: column_def square_iff setCell_row nth_list_update)

lemma column_setCell_other:
  "c' \<noteq> c \<Longrightarrow> column (setCell g r c v) c' = column g c'"
  by (rule nth_equalityI) (auto simp: column_def setCell_row)

lemma existingOf_survivors: "rev (map snd (existingOf g c)) = survivors g c"
  by (simp add: existingOf_def survivors_def column_def rev_map rev_filter filter_map comp_def)

lemma existingOf_length: "length (existingOf g c) \<le> length g"
proof -
  have "length (existingOf g c) \<le> length (rev [0..<length g])"
    unfolding existingOf_def length_map by (rule length_filter_le)
  then show ?thesis by simp
qed

lemma placeExisting_column:
  assumes "placeExisting c ex g fd w = (g', fd', w')"
    and "square n g" "c < n" "w < int n" "int (length ex) \<le> w + 1"
  shows "square n g' \<and> w' = w - int (length ex) \<and>
         column g' c = take (nat (w' + 1)) (column g c) @ rev (map snd ex) @ drop (nat (w + 1)) (column g c) \<and>
         (\<forall>c'. c' \<noteq> c \<longrightarrow> column g' c' = column g c')"
  using assms
proof (induction ex arbitrary: g fd w)
  case Nil
  then show ?case by simp
next
  case (Cons a ex)
  obtain r t where a: "a = (r, t)" by (cases a)
  let ?g1 = "setCell g (nat w) c t"
  from Cons.prems(5) have w0: "0 \<le> w" by simp
  with Cons.prems(4) have wn: "nat w < n" by simp
  from Cons.prems(1) a obtain fd1 where
    p: "placeExisting c ex ?g1 fd1 (w - 1) = (g', fd', w')"
    by (simp split: if_splits)
  have sq1: "square n ?g1" using Cons.prems(2) by (rule square_setCell)
  from Cons.IH[OF p sq1 Cons.prems(3)] Cons.prems(4,5)
  have ih: "square n g'" "w' = w - 1 - int (length ex)"
    "column g' c = take (nat (w' + 1)) (column ?g1 c) @ rev (map snd ex) @ drop (nat w) (column ?g1 c)"
    "\<forall>c'. c' \<noteq> c \<longrightarrow> column g' c' = column ?g1 c'"
    by simp_all
  have col1: "column ?g1 c = (column g c)[nat w := t]"
    using Cons.prems(2,3) wn by (simp add: column_setCell_same)
  have lcol: "length (column g c) = n" using Cons.prems(2) by (simp add: square_iff)
  have le: "nat (w' + 1) \<le> nat w" using ih(2) w0 by simp
  have t1: "take (nat (w' + 1)) (column ?g1 c) = take (nat (w' + 1)) (column g c)"
    unfolding col1 using le by simp
  have t2: "drop (nat w) (column ?g1 c) = t # drop (nat (w + 1)) (column g c)"
  proof -
    have "nat (w + 1) = Suc (nat w)" using w0 by simp
    then show ?thesis unfolding col1 using wn lcol
      by (simp add: drop_update_swap[symmetric] Cons_nth_drop_Suc[symmetric] upd_conv_take_nth_drop)
  qed
  show ?case
    using ih a t1 t2 by (simp add: column_setCell_other)
qed

lemma fillNew_column:
  assumes "fillNew c types numNew i g fd us = Some (g', fd', us')"
    and "square n g" "c < n" "i < int n" "- 1 \<le> i"
  shows "square n g' \<and> us' = drop (nat (i + 1)) us \<and> nat (i + 1) \<le> length us \<and>
         column g' c = rev (map (randomGem types) (take (nat (i + 1)) us)) @
                         drop (nat (i + 1)) (column g c) \<and>
         (\<forall>c'. c' \<noteq> c \<longrightarrow> column g' c' = column g c')"
  using assms
proof (induction c types numNew i g fd us rule: fillNew.induct)
  case (1 c types numNew i g fd us)
  show ?case
  proof (cases "i \<ge> 0")
    case False
    with "1.prems"(1) have "g' = g" "us' = us" by (simp_all add: fillNew.simps)
    with False "1.prems"(2,5) show ?thesis by simp
  next
    case True
    with "1.prems"(1) obtain u us1 where us: "us = u # us1"
      by (cases us) (simp_all add: fillNew.simps)
    let ?v = "randomGem types u"
    let ?g1 = "setCell g (nat i) c ?v"
    let ?fd1 = "fd @ [\<lparr>fcol = c, toRow = nat i, fromRow = i - numNew, gemType = ?v\<rparr>]"
    from "1.prems"(1) True us have
      f: "fillNew c types numNew (i - 1) ?g1 ?fd1 us1 = Some (g', fd', us')"
      by (simp add: fillNew.simps)
    have sq1: "square n ?g1" using "1.prems"(2) by (rule square_setCell)
    have inn: "nat i < n" using True "1.prems"(4) by simp
    from "1.IH"[OF True us f sq1 "1.prems"(3)] "1.prems"(4) True
    have ih: "square n g'" "us' = drop (nat i) us1" "nat i \<le> length us1"
      "column g' c = rev (map (randomGem types) (take (nat i) us1)) @ drop (nat i) (column ?g1 c)"
      "\<forall>c'. c' \<noteq> c \<longrightarrow> column g' c' = column ?g1 c'"
      by simp_all
    have col1: "column ?g1 c = (column g c)[nat i := ?v]"
      using "1.prems"(2,3) inn by (simp add: column_setCell_same)
    have lcol: "length (column g c) = n" using "1.prems"(2) by (simp add: square_iff)
    have s: "nat (i + 1) = Suc (nat i)" using True by simp
    have d: "drop (nat i) (column ?g1 c) = ?v # drop (nat (i + 1)) (column g c)"
      unfolding col1 s using inn lcol
      by (simp add: drop_update_swap[symmetric] Cons_nth_drop_Suc[symmetric] upd_conv_take_nth_drop)
    show ?thesis
      using ih us d s by (simp add: column_setCell_other)
  qed
qed

lemma fillNew_total:
  assumes "nat (i + 1) \<le> length us"
  shows "\<exists>r. fillNew c types numNew i g fd us = Some r"
  using assms
proof (induction c types numNew i g fd us rule: fillNew.induct)
  case (1 c types numNew i g fd us)
  show ?case
  proof (cases "i \<ge> 0")
    case False
    then show ?thesis by (simp add: fillNew.simps)
  next
    case True
    with "1.prems" obtain u us1 where us: "us = u # us1" by (cases us) auto
    from True us "1.prems" have "nat (i - 1 + 1) \<le> length us1" by simp
    from "1.IH"[OF True us this] True us show ?thesis by (simp add: fillNew.simps)
  qed
qed

lemma gravityCols_columns:
  assumes "gravityCols gr types c g fd us = Some (g', fd', us')"
    and "length gr = n" "square n g" "c \<le> n"
  shows "square n g' \<and> (\<exists>k. us' = drop k us) \<and>
         (\<forall>c'<c. column g' c' = column g c') \<and>
         (\<forall>c'. c \<le> c' \<and> c' < n \<longrightarrow>
            (\<exists>news. column g' c' = news @ survivors gr c' \<and>
                    set news \<subseteq> randomGem types ` set us))"
  using assms
proof (induction gr types c g fd us rule: gravityCols.induct)
  case (1 gr types c g fd us)
  show ?case
  proof (cases "c < length gr")
    case False
    with "1.prems"(1) have "g' = g" "us' = us" by (simp_all add: gravityCols.simps)
    moreover have "\<exists>k. us = drop k us" by (rule exI[of _ 0]) simp
    ultimately show ?thesis using False "1.prems"(2,3,4) by auto
  next
    case True
    then have cn: "c < n" using "1.prems"(2) by simp
    let ?ex = "existingOf gr c"
    obtain g1 fd1 w where p: "placeExisting c ?ex g fd (int (length gr) - 1) = (g1, fd1, w)"
      by (cases "placeExisting c ?ex g fd (int (length gr) - 1)") auto
    from "1.prems"(1) True p obtain g2 fd2 us2 where
      f: "fillNew c types (w + 1) w g1 fd1 us = Some (g2, fd2, us2)"
      and r: "gravityCols gr types (Suc c) g2 fd2 us2 = Some (g', fd', us')"
      by (subst (asm) gravityCols.simps) (auto split: option.splits)
    have exl: "int (length ?ex) \<le> int (length gr) - 1 + 1"
      using existingOf_length[of gr c] by simp
    have "int (length gr) - 1 < int n" using "1.prems"(2) by simp
    from placeExisting_column[OF p "1.prems"(3) cn this exl]
    have a: "square n g1" "w = int n - 1 - int (length ?ex)"
      "column g1 c = take (nat (w + 1)) (column g c) @ rev (map snd ?ex) @
                       drop (nat (int (length gr) - 1 + 1)) (column g c)"
      "\<forall>c'. c' \<noteq> c \<longrightarrow> column g1 c' = column g c'"
      using "1.prems"(2) by simp_all
    have lcol: "length (column g c) = n" using "1.prems"(3) by (simp add: square_iff)
    have wle: "nat (w + 1) \<le> n" using a(2) by simp
    have col1: "column g1 c = take (nat (w + 1)) (column g c) @ survivors gr c"
      using a(3) lcol "1.prems"(2) by (simp add: existingOf_survivors)
    have wn: "w < int n" "- 1 \<le> w" using a(2) existingOf_length[of gr c] "1.prems"(2) by simp_all
    from fillNew_column[OF f a(1) cn wn]
    have b: "square n g2" "us2 = drop (nat (w + 1)) us"
      "column g2 c = rev (map (randomGem types) (take (nat (w + 1)) us)) @
                       drop (nat (w + 1)) (column g1 c)"
      "\<forall>c'. c' \<noteq> c \<longrightarrow> column g2 c' = column g1 c'"
      by simp_all
    have col2: "column g2 c = rev (map (randomGem types) (take (nat (w + 1)) us)) @ survivors gr c"
      unfolding b(3) col1 using lcol wle by simp
    have sub2: "set us2 \<subseteq> set us" unfolding b(2) by (rule set_drop_subset)
    from "1.IH"[OF True p[symmetric] refl f refl refl r "1.prems"(2) b(1)] cn
    have ih: "square n g'" "\<exists>k. us' = drop k us2" "\<forall>c'<Suc c. column g' c' = column g2 c'"
      "\<forall>c'. Suc c \<le> c' \<and> c' < n \<longrightarrow>
         (\<exists>news. column g' c' = news @ survivors gr c' \<and>
                 set news \<subseteq> randomGem types ` set us2)"
      by simp_all
    have 2: "\<exists>k. us' = drop k us" using ih(2) b(2) by auto
    have 3: "\<forall>c'<c. column g' c' = column g c'" using ih(3) b(4) a(4) by simp
    have 4: "\<exists>news. column g' c' = news @ survivors gr c' \<and>
                    set news \<subseteq> randomGem types ` set us" if "c \<le> c'" "c' < n" for c'
    proof (cases "c' = c")
      case True
      have "set (rev (map (randomGem types) (take (nat (w + 1)) us))) \<subseteq> randomGem types ` set us"
        using set_take_subset[of "nat (w + 1)" us] by auto
      with True ih(3) col2 show ?thesis by auto
    next
      case False
      with that have "Suc c \<le> c'" by simp
      with ih(4) that obtain news where "column g' c' = news @ survivors gr c'"
        "set news \<subseteq> randomGem types ` set us2" by blast
      with sub2 show ?thesis by blast
    qed
    from ih(1) 2 3 4 show ?thesis by blast
  qed
qed

lemma gravityCols_total:
  assumes "length gr = n" "square n g" "c \<le> n" "drawsNeeded gr c \<le> length us"
  shows "\<exists>r. gravityCols gr types c g fd us = Some r"
  using assms
proof (induction gr types c g fd us rule: gravityCols.induct)
  case (1 gr types c g fd us)
  show ?case
  proof (cases "c < length gr")
    case False
    then show ?thesis by (simp add: gravityCols.simps)
  next
    case True
    then have cn: "c < n" using "1.prems"(1) by simp
    let ?ex = "existingOf gr c"
    obtain g1 fd1 w where p: "placeExisting c ?ex g fd (int (length gr) - 1) = (g1, fd1, w)"
      by (cases "placeExisting c ?ex g fd (int (length gr) - 1)") auto
    have exl: "int (length ?ex) \<le> int (length gr) - 1 + 1"
      using existingOf_length[of gr c] by simp
    have "int (length gr) - 1 < int n" using "1.prems"(1) by simp
    from placeExisting_column[OF p "1.prems"(2) cn this exl]
    have a: "square n g1" "w = int n - 1 - int (length ?ex)"
      using "1.prems"(1) by simp_all
    have ls: "length ?ex = length (survivors gr c)"
      using existingOf_survivors[of gr c, symmetric] by (metis length_map length_rev)
    have need: "drawsNeeded gr c = (n - length (survivors gr c)) + drawsNeeded gr (Suc c)"
      using True "1.prems"(1) by (simp add: drawsNeeded_def upt_conv_Cons)
    have w1: "nat (w + 1) = n - length (survivors gr c)"
      using a(2) ls existingOf_length[of gr c] "1.prems"(1) by simp
    with need "1.prems"(4) have "nat (w + 1) \<le> length us" by simp
    from fillNew_total[OF this, of c types "w + 1" g1 fd1]
    obtain g2 fd2 us2 where f: "fillNew c types (w + 1) w g1 fd1 us = Some (g2, fd2, us2)"
      by (metis prod_cases3)
    have wn: "w < int n" "- 1 \<le> w"
      using a(2) existingOf_length[of gr c] "1.prems"(1) by simp_all
    from fillNew_column[OF f a(1) cn wn]
    have b: "square n g2" "us2 = drop (nat (w + 1)) us" by simp_all
    have "drawsNeeded gr (Suc c) \<le> length us2"
      using b(2) w1 need "1.prems"(4) by simp
    from "1.IH"[OF True p[symmetric] refl f refl refl "1.prems"(1) b(1) _ this] cn
    obtain r where r: "gravityCols gr types (Suc c) g2 fd2 us2 = Some r" by auto
    have "gravityCols gr types c g fd us = gravityCols gr types (Suc c) g2 fd2 us2"
      using True p f by (subst gravityCols.simps) simp
    with r show ?thesis by (intro exI[of _ r]) simp
  qed
qed

lemma randomGem_range:
  assumes "0 \<le> u" "u < 1" "0 < types"
  shows "0 \<le> randomGem types u \<and> randomGem types u < int types"
proof -
  have "0 \<le> u * of_nat types" using assms by simp
  moreover have "u * of_nat types < of_nat types" using assms by simp
  ultimately show ?thesis unfolding randomGem_def
    by (simp add: floor_less_iff)
qed

lemma square_blank: "square n (replicate n (replicate n v))"
  by (simp add: square_iff)

text \<open>
  Claim C10. \<open>gr\<close> is an \<open>n \<times> n\<close> grid whose negative cells are empty, there is at least one
  gem type, and the list of draws holds one draw in \<open>[0, 1)\<close> for every empty cell. Then
  \<^verbatim>\<open>applyGravity\<close> returns; the grid it returns is \<open>n \<times> n\<close> and has no empty cell; and each of
  its columns, read from the top down, is a block of new gems, every one of them in
  \<open>[0, types)\<close>, followed by the surviving gems of that column of \<open>gr\<close> in their original
  top-to-bottom order.
\<close>

theorem applyGravity_columns:
  assumes "square n gr" and "0 < types" and "unitDraws us" and "drawsNeeded gr 0 \<le> length us"
  shows "\<exists>newGrid fd us'. applyGravity gr types us = Some (newGrid, fd, us') \<and>
           square n newGrid \<and>
           (\<forall>r<n. \<forall>c<n. 0 \<le> newGrid ! r ! c) \<and>
           (\<forall>c<n. \<exists>news. column newGrid c = news @ survivors gr c \<and>
                           (\<forall>v\<in>set news. 0 \<le> v \<and> v < int types))"
proof -
  from assms(1) have len: "length gr = n" by (simp add: square_iff)
  let ?blank = "replicate n (replicate n (- 1 :: int))"
  have "\<exists>r. gravityCols gr types 0 ?blank [] us = Some r"
    by (rule gravityCols_total[OF len square_blank _ assms(4)]) simp
  then obtain newGrid fd us' where
    g: "gravityCols gr types 0 ?blank [] us = Some (newGrid, fd, us')"
    by (metis prod_cases3)
  then have ag: "applyGravity gr types us = Some (newGrid, fd, us')"
    by (simp add: applyGravity_def Let_def len)
  from gravityCols_columns[OF g len square_blank]
  have sq: "square n newGrid"
    and cols: "\<forall>c'. c' < n \<longrightarrow> (\<exists>news. column newGrid c' = news @ survivors gr c' \<and>
                  set news \<subseteq> randomGem types ` set us)"
    by simp_all
  have rng: "0 \<le> v \<and> v < int types" if "v \<in> randomGem types ` set us" for v
  proof -
    from that obtain u where "u \<in> set us" "v = randomGem types u" by auto
    moreover from this assms(3) have "0 \<le> u \<and> u < 1" by (simp add: unitDraws_def list_all_iff)
    ultimately show ?thesis using randomGem_range[of u types] assms(2) by simp
  qed
  have c3: "\<exists>news. column newGrid c = news @ survivors gr c \<and>
                (\<forall>v\<in>set news. 0 \<le> v \<and> v < int types)" if "c < n" for c
  proof -
    from cols that obtain news where "column newGrid c = news @ survivors gr c"
      "set news \<subseteq> randomGem types ` set us" by blast
    with rng show ?thesis by blast
  qed
  have c2: "0 \<le> newGrid ! r ! c" if "r < n" "c < n" for r c
  proof -
    from c3[OF that(2)] obtain news where n: "column newGrid c = news @ survivors gr c"
      "\<forall>v\<in>set news. 0 \<le> v \<and> v < int types" by blast
    have "newGrid ! r ! c = column newGrid c ! r"
      using sq that by (simp add: column_def square_iff)
    moreover have "column newGrid c ! r \<in> set (column newGrid c)"
      using sq that by (simp add: square_iff)
    ultimately have "newGrid ! r ! c \<in> set news \<union> set (survivors gr c)" using n(1) by simp
    then show ?thesis using n(2) by (auto simp: survivors_def)
  qed
  from ag sq c2 c3 show ?thesis by blast
qed

theorem applyGravity_columns_witness:
  "square 3 boardC \<and> (0::nat) < 5 \<and> unitDraws [1 / 10, 1 / 2, 9 / 10, 3 / 10] \<and>
   drawsNeeded boardC 0 \<le> length [1 / 10 :: rat, 1 / 2, 9 / 10, 3 / 10] \<and>
   (\<exists>fd. applyGravity boardC 5 [1 / 10, 1 / 2, 9 / 10, 3 / 10] =
      Some ([[0, 4, 1], [1, 2, 2], [3, 1, 0]], fd, []))"
proof -
  have h1: "square 3 boardC" unfolding boardC_def by code_simp
  have h2: "(0::nat) < 5" by simp
  have h3: "unitDraws [1 / 10, 1 / 2, 9 / 10, 3 / 10]" by (simp add: unitDraws_def)
  have h4: "drawsNeeded boardC 0 \<le> length [1 / 10 :: rat, 1 / 2, 9 / 10, 3 / 10]"
    unfolding boardC_def by code_simp
  from applyGravity_columns[OF h1 h2 h3 h4]
  obtain newGrid fd us' where
    a: "applyGravity boardC 5 [1 / 10, 1 / 2, 9 / 10, 3 / 10] = Some (newGrid, fd, us')"
    by blast
  have "map_option (\<lambda>(g, fd, us). (g, us)) (applyGravity boardC 5 [1 / 10, 1 / 2, 9 / 10, 3 / 10]) =
      Some ([[0, 4, 1], [1, 2, 2], [3, 1, 0]], [])"
    unfolding boardC_def by code_simp
  with a have "applyGravity boardC 5 [1 / 10, 1 / 2, 9 / 10, 3 / 10] =
      Some ([[0, 4, 1], [1, 2, 2], [3, 1, 0]], fd, [])" by simp
  with h1 h2 h3 h4 show ?thesis by blast
qed

section \<open>Snake: the body never overlaps itself\<close>

lemma point_eq: "(x p = x q \<and> y p = y q) = (p = (q::Point))"
  by auto

lemma tick_cases:
  assumes "snakeState wd = Playing" "snake wd = head # rest" "tick cfg u wd = Some wd'"
  shows "snake wd' = snake wd \<or>
         (newHeadOf cfg (nextDir wd) head \<notin> set (snake wd) \<and> snake wd' = newHeadOf cfg (nextDir wd) head # snake wd) \<or>
         (newHeadOf cfg (nextDir wd) head \<notin> set (butlast (snake wd)) \<and>
          snake wd' = newHeadOf cfg (nextDir wd) head # butlast (snake wd))"
proof -
  let ?nh = "newHeadOf cfg (nextDir wd) head"
  let ?hit = "\<lambda>b. list_ex (\<lambda>seg. x seg = x ?nh \<and> y seg = y ?nh) b"
  have ex: "?hit b = (?nh \<in> set b)" for b
    by (simp add: list_ex_iff point_eq)
  show ?thesis
  proof (cases "hitsWall cfg ?nh")
    case True
    with assms have "snake wd' = snake wd" by (auto simp: tick_def Let_def)
    then show ?thesis by simp
  next
    case nowall: False
    show ?thesis
    proof (cases "x ?nh = x (food wd) \<and> y ?nh = y (food wd)")
      case eat: True
      show ?thesis
      proof (cases "?hit (snake wd)")
        case True
        with assms nowall eat have "snake wd' = snake wd" by (auto simp: tick_def Let_def)
        then show ?thesis by simp
      next
        case False
        with assms nowall eat have "snake wd' = ?nh # snake wd" by (auto simp: tick_def Let_def)
        moreover from False have "?nh \<notin> set (snake wd)" by (simp add: ex)
        ultimately show ?thesis by simp
      qed
    next
      case noeat: False
      show ?thesis
      proof (cases "?hit (butlast (snake wd))")
        case True
        with assms nowall noeat have "snake wd' = snake wd" by (auto simp: tick_def Let_def)
        then show ?thesis by simp
      next
        case False
        with assms nowall noeat have "snake wd' = ?nh # butlast (snake wd)"
          by (auto simp: tick_def Let_def)
        moreover from False have "?nh \<notin> set (butlast (snake wd))" by (simp add: ex)
        ultimately show ?thesis by simp
      qed
    qed
  qed
qed

lemma tick_distinct:
  assumes "distinct (snake wd)" "tick cfg u wd = Some wd'"
  shows "distinct (snake wd')"
proof (cases "snakeState wd = Playing")
  case False
  with assms show ?thesis by (simp add: tick_def)
next
  case True
  with assms(2) obtain head rest where s: "snake wd = head # rest"
    by (cases "snake wd") (auto simp: tick_def)
  have bl: "distinct (butlast (snake wd))" using assms(1) by (rule distinct_butlast)
  from tick_cases[OF True s assms(2)] assms(1) bl show ?thesis by auto
qed

lemma tick_nonempty:
  assumes "snake wd \<noteq> []" "tick cfg u wd = Some wd'"
  shows "snake wd' \<noteq> []"
proof (cases "snakeState wd = Playing")
  case False
  with assms show ?thesis by (simp add: tick_def)
next
  case True
  from assms(1) obtain head rest where s: "snake wd = head # rest" by (cases "snake wd") auto
  from tick_cases[OF True s assms(2)] assms(1) show ?thesis by auto
qed

lemma tick_returns: "snake wd \<noteq> [] \<Longrightarrow> \<exists>wd'. tick cfg u wd = Some wd'"
  by (cases "snake wd") (auto simp: tick_def Let_def)

lemma startGame_snake:
  "distinct (snake (startGame cfg u wd)) \<and> snake (startGame cfg u wd) \<noteq> []"
  by (simp add: startGame_def initGame_def Let_def)

lemma snakeRun_invariant:
  assumes "distinct (snake wd)" "snake wd \<noteq> []"
  shows "\<exists>wd'. snakeRun cfg evs wd = Some wd' \<and> distinct (snake wd') \<and> snake wd' \<noteq> []"
  using assms
proof (induction evs arbitrary: wd)
  case Nil
  then show ?case by simp
next
  case (Cons e evs)
  show ?case
  proof (cases e)
    case (Tick u)
    from tick_returns[OF Cons.prems(2), of cfg u] obtain wd1 where t: "tick cfg u wd = Some wd1"
      by blast
    from tick_distinct[OF Cons.prems(1) t] tick_nonempty[OF Cons.prems(2) t]
    have "distinct (snake wd1)" "snake wd1 \<noteq> []" by simp_all
    from Cons.IH[OF this] t Tick show ?thesis by simp
  next
    case (Steer d)
    have "snake (steer d wd) = snake wd" by (simp add: steer_def split: Direction.splits)
    with Cons.IH[of "steer d wd"] Cons.prems Steer show ?thesis by simp
  next
    case TogglePause
    have "snake (togglePause wd) = snake wd" by (simp add: togglePause_def)
    with Cons.IH[of "togglePause wd"] Cons.prems TogglePause show ?thesis by simp
  next
    case (Restart u)
    from startGame_snake[of cfg u wd] Cons.IH[of "startGame cfg u wd"] Restart
    show ?thesis by simp
  qed
qed

text \<open>
  Claim C4. From the start of a game, after any sequence of ticks, direction inputs, pauses
  and restarts, the run has not failed and the body holds no cell twice. Each single tick keeps
  the cells of the body distinct: the new head is tested against the whole body when the
  move eats (the tail stays), and against the body without its last cell when it does not
  (the tail is vacated in the same tick).
\<close>

theorem snake_body_distinct:
  "(\<exists>wd'. snakeRun cfg evs (startGame cfg u0 wd0) = Some wd' \<and> distinct (snake wd')) \<and>
   (\<forall>wd wd' u. distinct (snake wd) \<and> tick cfg u wd = Some wd' \<longrightarrow> distinct (snake wd'))"
proof -
  from startGame_snake[of cfg u0 wd0]
  have "distinct (snake (startGame cfg u0 wd0))" "snake (startGame cfg u0 wd0) \<noteq> []"
    by simp_all
  from snakeRun_invariant[OF this, of cfg evs] tick_distinct show ?thesis by blast
qed

theorem snake_body_distinct_witness:
  "(\<exists>wd'. snakeRun SNAKE_medium [Tick (1 / 2), Steer Down, Tick (1 / 2), Tick (1 / 2)]
            (startGame SNAKE_medium (1 / 2) snakeMenu) = Some wd' \<and> distinct (snake wd')) \<and>
   snake (startGame SNAKE_medium (1 / 2) snakeMenu) =
     [\<lparr>x = 10, y = 10\<rparr>, \<lparr>x = 9, y = 10\<rparr>, \<lparr>x = 8, y = 10\<rparr>] \<and>
   (\<exists>wd'. tick SNAKE_medium (1 / 2) (startGame SNAKE_medium (1 / 2) snakeMenu) = Some wd' \<and>
      distinct (snake wd')) \<and>
   map_option snake
     (snakeRun SNAKE_medium [Tick (1 / 2), Steer Down, Tick (1 / 2), Tick (1 / 2)]
        (startGame SNAKE_medium (1 / 2) snakeMenu)) =
     Some [\<lparr>x = 11, y = 12\<rparr>, \<lparr>x = 11, y = 11\<rparr>, \<lparr>x = 11, y = 10\<rparr>]"
proof -
  let ?s0 = "startGame SNAKE_medium (1 / 2) snakeMenu"
  have b: "snake ?s0 = [\<lparr>x = 10, y = 10\<rparr>, \<lparr>x = 9, y = 10\<rparr>, \<lparr>x = 8, y = 10\<rparr>]"
    by (simp add: startGame_def initGame_def SNAKE_medium_def Let_def)
  then have d: "distinct (snake ?s0)" by simp
  from b have "snake ?s0 \<noteq> []" by simp
  from tick_returns[OF this, of SNAKE_medium "1 / 2"]
  obtain wd1 where t: "tick SNAKE_medium (1 / 2) ?s0 = Some wd1" by blast
  have r: "map_option snake
     (snakeRun SNAKE_medium [Tick (1 / 2), Steer Down, Tick (1 / 2), Tick (1 / 2)]
        (startGame SNAKE_medium (1 / 2) snakeMenu)) =
     Some [\<lparr>x = 11, y = 12\<rparr>, \<lparr>x = 11, y = 11\<rparr>, \<lparr>x = 11, y = 10\<rparr>]"
    unfolding SNAKE_medium_def snakeMenu_def by code_simp
  from snake_body_distinct[of SNAKE_medium
      "[Tick (1 / 2), Steer Down, Tick (1 / 2), Tick (1 / 2)]" "1 / 2" snakeMenu] d t b r
  show ?thesis by blast
qed

section \<open>Space Invaders: reversal at the edge\<close>

lemma needDrop_wouldLeave: "needDrop w s game = wouldLeave w s game"
  by (auto simp: needDrop_def wouldLeave_def staysInside_def Let_def list_ex_iff not_le)

lemma needDrop_fields:
  "needDrop w s (game\<lparr>stepTimer := t, alienAnimFrame := f\<rparr>) = needDrop w s game"
  by (simp add: needDrop_def)

text \<open>
  Claim C5. On a frame whose formation step is due, with the direction \<open>1\<close> or \<open>- 1\<close>: the
  direction is reversed exactly when the formation would leave, and is unchanged exactly
  when it would not. On a reversal no alien changes its horizontal position and every alive
  alien moves down by \<^verbatim>\<open>alienDropPx\<close>; otherwise every alive alien moves one step sideways
  and none moves down. Dead aliens never move.
\<close>

theorem formation_reverses_at_edge:
  assumes "alienDir game = 1 \<or> alienDir game = - 1"
    and "stepTimer game + dt * 1000 \<ge> stepInterval game"
  shows "(alienDir (formationStep dt w s game) = - alienDir game) = wouldLeave w s game \<and>
         (alienDir (formationStep dt w s game) = alienDir game) = (\<not> wouldLeave w s game) \<and>
         length (aliens (formationStep dt w s game)) = length (aliens game) \<and>
         (wouldLeave w s game \<longrightarrow>
            (\<forall>i<length (aliens game).
               alienX (aliens (formationStep dt w s game) ! i) = alienX (aliens game ! i) \<and>
               alienY (aliens (formationStep dt w s game) ! i) =
                 (if alive (aliens game ! i) then alienY (aliens game ! i) + alienDropPx s
                  else alienY (aliens game ! i)))) \<and>
         (\<not> wouldLeave w s game \<longrightarrow>
            (\<forall>i<length (aliens game).
               alienY (aliens (formationStep dt w s game) ! i) = alienY (aliens game ! i) \<and>
               alienX (aliens (formationStep dt w s game) ! i) =
                 (if alive (aliens game ! i)
                  then alienX (aliens game ! i) + of_int (alienDir game) * alienSpeed s
                  else alienX (aliens game ! i))))"
proof (cases "needDrop w s game")
  case True
  then have wl: "wouldLeave w s game" by (simp add: needDrop_wouldLeave)
  from True assms wl show ?thesis
    by (auto simp: formationStep_def Let_def needDrop_fields)
next
  case False
  then have wl: "\<not> wouldLeave w s game" by (simp add: needDrop_wouldLeave)
  from False assms wl show ?thesis
    by (auto simp: formationStep_def Let_def needDrop_fields)
qed

theorem formation_reverses_at_edge_witness:
  "wouldLeave 800 INVADERS_medium invadersAtEdge \<and>
   alienDir (formationStep (1 / 50) 800 INVADERS_medium invadersAtEdge) = - 1 \<and>
   map alienX (aliens (formationStep (1 / 50) 800 INVADERS_medium invadersAtEdge)) = [700, 760, 798] \<and>
   map alienY (aliens (formationStep (1 / 50) 800 INVADERS_medium invadersAtEdge)) = [80, 80, 60]"
proof -
  have h1: "alienDir invadersAtEdge = 1 \<or> alienDir invadersAtEdge = - 1"
    by (simp add: invadersAtEdge_def)
  have h2: "stepTimer invadersAtEdge + (1 / 50) * 1000 \<ge> stepInterval invadersAtEdge"
    by (simp add: invadersAtEdge_def)
  have wl: "wouldLeave 800 INVADERS_medium invadersAtEdge"
    by (simp add: wouldLeave_def staysInside_def invadersAtEdge_def INVADERS_medium_def alienAt_def)
  have d: "alienDir invadersAtEdge = 1" by (simp add: invadersAtEdge_def)
  from formation_reverses_at_edge[OF h1 h2, of 800 INVADERS_medium] wl d
  have "alienDir (formationStep (1 / 50) 800 INVADERS_medium invadersAtEdge) = - 1" by simp
  moreover have
    "map alienX (aliens (formationStep (1 / 50) 800 INVADERS_medium invadersAtEdge)) = [700, 760, 798]"
    "map alienY (aliens (formationStep (1 / 50) 800 INVADERS_medium invadersAtEdge)) = [80, 80, 60]"
    by (simp_all add: formationStep_def needDrop_def invadersAtEdge_def INVADERS_medium_def
        alienAt_def Let_def)
  ultimately show ?thesis using wl by simp
qed

section \<open>Elapsed time per frame\<close>




section \<open>The best score at startup\<close>

text \<open>
  \<^verbatim>\<open>parseInt\<close> reads the digits as the decimal number they denote, and it reads a string
  that is made of white space, a sign, digits and a rest in just these parts; every string
  is made in this way.
\<close>

lemma fold_digits: "fold (\<lambda>c a. 10 * a + (int c - 48)) ds a = a * 10 ^ length ds + decimalValue ds"
proof (induction ds arbitrary: a)
  case Nil
  then show ?case by (simp add: decimalValue_def)
next
  case (Cons c ds)
  have "decimalValue (c # ds) = (int c - 48) * 10 ^ length ds + decimalValue ds"
    unfolding decimalValue_def length_Cons by (subst sum.lessThan_Suc_shift) simp
  with Cons[of "10 * a + (int c - 48)"] show ?case by (simp add: algebra_simps)
qed

lemma digitsValue_decimal: "digitsValue ds = decimalValue ds"
  by (simp add: digitsValue_def fold_digits)

lemma white_not_digit: "isWhite c \<Longrightarrow> \<not> isDigit c"
  by (auto simp: isWhite_def isDigit_def)

lemma parse_split:
  assumes "parsedAs ws sg ds rest"
  shows "leadingDigits (ws @ sg @ ds @ rest) = ds \<and>
         (ds \<noteq> [] \<longrightarrow> fst (afterSign (dropWhile isWhite (ws @ sg @ ds @ rest))) = (sg = [45]))"
proof -
  from assms have w: "list_all isWhite ws" and d: "list_all isDigit ds"
    and sg: "sg = [] \<or> sg = [45] \<or> sg = [43]"
    and r: "rest = [] \<or> \<not> isDigit (hd rest)"
    and r2: "sg = [] \<and> ds = [] \<and> rest \<noteq> [] \<longrightarrow> \<not> isWhite (hd rest) \<and> hd rest \<noteq> 45 \<and> hd rest \<noteq> 43"
    by (auto simp: parsedAs_def split: list.splits)
  have nw: "sg @ ds @ rest = [] \<or> \<not> isWhite (hd (sg @ ds @ rest))"
  proof (cases "sg = []")
    case False
    with sg show ?thesis by (auto simp: isWhite_def)
  next
    case True
    show ?thesis
    proof (cases ds)
      case Nil
      with True r2 show ?thesis by auto
    next
      case (Cons c ds')
      with d have "isDigit c" by simp
      with True Cons show ?thesis by (auto dest: white_not_digit)
    qed
  qed
  have dw: "dropWhile isWhite (ws @ sg @ ds @ rest) = sg @ ds @ rest"
  proof -
    have "dropWhile isWhite (ws @ (sg @ ds @ rest)) = dropWhile isWhite (sg @ ds @ rest)"
      using w by (simp add: dropWhile_append list_all_iff)
    also have "\<dots> = sg @ ds @ rest" using nw by (cases "sg @ ds @ rest") auto
    finally show ?thesis .
  qed
  have tw: "takeWhile isDigit (ds @ rest) = ds"
    using d r by (cases rest) (auto simp: takeWhile_append list_all_iff takeWhile_eq_all_conv)
  have as: "afterSign (sg @ ds @ rest) = (sg = [45], ds @ rest)" if "sg \<noteq> [] \<or> ds \<noteq> []"
  proof (cases "sg = []")
    case False
    with sg show ?thesis by (auto simp: afterSign_def)
  next
    case True
    with that obtain c ds' where c: "ds = c # ds'" by (cases ds) auto
    with d have "isDigit c" by simp
    then have "c \<noteq> 45" "c \<noteq> 43" by (auto simp: isDigit_def)
    with True c show ?thesis by (simp add: afterSign_def)
  qed
  show ?thesis
  proof (cases "sg \<noteq> [] \<or> ds \<noteq> []")
    case True
    from as[OF True] dw tw show ?thesis by (simp add: leadingDigits_def)
  next
    case False
    then have e: "sg = []" "ds = []" by simp_all
    have "snd (afterSign rest) = rest"
      using r2 e by (cases rest) (auto simp: afterSign_def)
    moreover have "takeWhile isDigit rest = []" using r by (cases rest) auto
    ultimately show ?thesis using e dw by (simp add: leadingDigits_def)
  qed
qed

lemma roundHalfEven_safe: "n < 2 ^ 53 \<Longrightarrow> roundHalfEven n = n"
  by (simp add: roundHalfEven_def)

lemma toNumber_safe: "n < 2 ^ 53 \<Longrightarrow> toNumber neg n = Num (if neg then - n else n)"
proof -
  assume a: "n < 2 ^ 53"
  have "(2::int) ^ 53 \<le> 2 ^ 1024" by (rule power_increasing) simp_all
  with a have "\<not> n \<ge> 2 ^ 1024" by linarith
  with a show ?thesis by (simp add: toNumber_def roundHalfEven_safe Let_def)
qed

lemma parsedAs_exists: "\<exists>ws sg ds rest. v = ws @ sg @ ds @ rest \<and> parsedAs ws sg ds rest"
proof -
  define ws where "ws = takeWhile isWhite v"
  define t where "t = dropWhile isWhite v"
  define sg where "sg = (if t \<noteq> [] \<and> (hd t = 45 \<or> hd t = 43) then [hd t] else [])"
  define u where "u = drop (length sg) t"
  define ds where "ds = takeWhile isDigit u"
  define rest where "rest = dropWhile isDigit u"
  have tu: "t = sg @ u" unfolding u_def sg_def by (cases t) auto
  have "v = ws @ t" unfolding ws_def t_def by simp
  also have "t = sg @ u" by (rule tu)
  also have "u = ds @ rest" unfolding ds_def rest_def by simp
  finally have v: "v = ws @ sg @ ds @ rest" .
  have w: "list_all isWhite ws" unfolding ws_def list_all_iff by (meson set_takeWhileD)
  have d: "list_all isDigit ds" unfolding ds_def list_all_iff by (meson set_takeWhileD)
  have r: "rest = [] \<or> \<not> isDigit (hd rest)" unfolding rest_def by (metis hd_dropWhile)
  have tw: "t = [] \<or> \<not> isWhite (hd t)" unfolding t_def by (metis hd_dropWhile)
  have s: "sg = [] \<or> sg = [45] \<or> sg = [43]" unfolding sg_def by auto
  have r2: "\<not> isWhite (hd rest) \<and> hd rest \<noteq> 45 \<and> hd rest \<noteq> 43"
    if a: "sg = []" "ds = []" "rest \<noteq> []"
  proof -
    from a(1) have "u = t" by (simp add: u_def)
    moreover have "u = ds @ rest" by (simp add: ds_def rest_def)
    ultimately have e: "rest = t" using a(2) by simp
    with a(3) tw have "\<not> isWhite (hd t)" by simp
    moreover from a(1,3) e have "hd t \<noteq> 45 \<and> hd t \<noteq> 43"
      unfolding sg_def by (auto split: if_splits)
    ultimately show ?thesis using e by simp
  qed
  have "parsedAs ws sg ds rest"
  proof (cases rest)
    case Nil
    with w d s show ?thesis by (simp add: parsedAs_def)
  next
    case (Cons c cs)
    with r have "\<not> isDigit c" by simp
    moreover from Cons r2 have "sg = [] \<and> ds = [] \<longrightarrow> \<not> isWhite c \<and> c \<noteq> 45 \<and> c \<noteq> 43"
      by auto
    ultimately show ?thesis using w d s Cons by (simp add: parsedAs_def)
  qed
  with v show ?thesis by blast
qed


text \<open>
  \<open>roundHalfEven\<close> rounds to the nearest double, ties to even, and that double is unique.
\<close>

lemma bits_bounds: "0 < n \<Longrightarrow> 2 ^ (bits n - 1) \<le> n \<and> n < 2 ^ bits n"
proof (induction n rule: bits.induct)
  case (1 n)
  show ?case
  proof (cases "n = 1")
    case True
    have "bits 1 = Suc (bits 0)" by (subst bits.simps) simp
    also have "bits 0 = 0" by (subst bits.simps) simp
    finally show ?thesis using True by simp
  next
    case False
    with "1.prems" have h: "0 < n div 2" by simp
    from "1.prems" have b: "bits n = Suc (bits (n div 2))" by (subst bits.simps) simp
    from "1.IH" "1.prems" h have ih: "2 ^ (bits (n div 2) - 1) \<le> n div 2" "n div 2 < 2 ^ bits (n div 2)"
      by simp_all
    from h have "bits (n div 2) \<noteq> 0" by (subst bits.simps) simp
    then obtain k where k: "bits (n div 2) = Suc k" by (cases "bits (n div 2)") auto
    from ih k have "2 ^ k \<le> n div 2" "n div 2 < 2 ^ Suc k" by simp_all
    then have "2 * 2 ^ k \<le> n" "n < 2 * 2 ^ Suc k" by linarith+
    with b k show ?thesis by simp
  qed
qed

lemma cancel_pos: "(0::int) < c \<Longrightarrow> a * c < b * c \<Longrightarrow> a < b"
  by (simp add: mult_less_cancel_right)

lemma no_double_between:
  assumes d: "isDoubleInt m" and q: "2 ^ 52 \<le> q" and lo: "q * 2 ^ e < m" and hi: "m < (q + 1) * 2 ^ e"
  shows False
proof -
  from d obtain q' and e' :: nat where m: "m = q' * 2 ^ e'" and q': "0 \<le> q'" "q' < 2 ^ 53"
    by (auto simp: isDoubleInt_def)
  show False
  proof (cases "e \<le> e'")
    case True
    then obtain j where j: "e' = e + j" using le_Suc_ex by blast
    have m2: "m = (q' * 2 ^ j) * 2 ^ e" unfolding m j by (simp add: power_add)
    have p: "(0::int) < 2 ^ e" by simp
    from lo m2 p have "q < q' * 2 ^ j" by (simp add: mult_less_cancel_right)
    moreover from hi m2 p have "q' * 2 ^ j < q + 1" by (simp add: mult_less_cancel_right)
    ultimately show False by linarith
  next
    case False
    then obtain j where j: "e = Suc (e' + j)" by (metis add_Suc_right less_imp_Suc_add not_le)
    have "m < 2 ^ 53 * 2 ^ e'" unfolding m using q'(2) by (simp add: mult_less_cancel_right)
    also have "\<dots> \<le> 2 ^ 53 * (2 ^ e' * 2 ^ j :: int)" by simp
    also have "\<dots> = 2 ^ 52 * 2 ^ e" unfolding j by (simp add: power_add)
    also have "\<dots> \<le> q * 2 ^ e" using q by (simp add: mult_right_mono)
    finally show False using lo by simp
  qed
qed

lemma pow53_shift: "(2::int) ^ 53 * 2 ^ e = 2 ^ 52 * 2 ^ Suc e"
proof -
  have "(2::int) ^ 53 = 2 ^ 52 * 2" by simp
  then show ?thesis by (simp only: power_Suc mult.assoc)
qed

lemma isDoubleInt_pow52: "isDoubleInt (2 ^ 52 * 2 ^ k)"
  unfolding isDoubleInt_def by (rule exI[of _ "2 ^ 52"], rule exI[of _ k]) simp

lemma roundHalfEven_rounds:
  assumes "0 \<le> n"
  shows "roundsTo n (roundHalfEven n)"
proof (cases "n < 2 ^ 53")
  case True
  then have v: "roundHalfEven n = n" by (simp add: roundHalfEven_def)
  have "isDoubleInt n"
    unfolding isDoubleInt_def using assms True by (rule_tac exI[of _ n], rule_tac exI[of _ 0]) simp
  then show ?thesis unfolding roundsTo_def v by auto
next
  case False
  then have big: "2 ^ 53 \<le> n" by simp
  then have pos: "0 < n" by (smt (verit) zero_less_power)
  define e where "e = bits n - 53"
  define q where "q = n div 2 ^ e"
  define r where "r = n mod 2 ^ e"
  from bits_bounds[OF pos] have bb: "2 ^ (bits n - 1) \<le> n" "n < 2 ^ bits n" by simp_all
  from big bb(2) have "(2::int) ^ 53 < 2 ^ bits n" by linarith
  then have b54: "53 < bits n" using power_less_imp_less_exp[of "2::int" 53 "bits n"] by simp
  then have be: "bits n = 53 + e" "bits n - 1 = 52 + e" by (simp_all add: e_def)
  have p: "(0::int) < 2 ^ e" by simp
  have n: "n = q * 2 ^ e + r" unfolding q_def r_def by (rule div_mult_mod_eq[symmetric])
  have r: "0 \<le> r" "r < 2 ^ e" by (simp_all add: r_def)
  have qlo: "2 ^ 52 \<le> q"
  proof -
    have "(2::int) ^ 52 * 2 ^ e \<le> n" using bb(1) be(2) by (simp add: power_add)
    also have "n < (q + 1) * 2 ^ e" unfolding n using r by (simp add: algebra_simps)
    finally have "(2::int) ^ 52 < q + 1" by (rule cancel_pos[OF p])
    then show ?thesis by simp
  qed
  have qhi: "q < 2 ^ 53"
  proof -
    have "q * 2 ^ e \<le> n" unfolding n using r by simp
    also have "n < 2 ^ 53 * 2 ^ e" using bb(2) be(1) by (simp add: power_add)
    finally show ?thesis by (rule cancel_pos[OF p])
  qed
  define P where "P = (2::int) ^ e"
  define L where "L = q * P"
  have nL: "n = L + r" using n by (simp add: L_def P_def)
  have hL: "(q + 1) * 2 ^ e = L + P" by (simp add: L_def P_def algebra_simps)
  have rP: "0 \<le> r" "r < P" using r by (simp_all add: P_def)
  have dlo: "isDoubleInt L"
    unfolding isDoubleInt_def L_def P_def using qlo qhi
    by (rule_tac exI[of _ q], rule_tac exI[of _ e]) simp
  have elo: "evenDouble L" if "even q"
    unfolding evenDouble_def L_def P_def using qlo qhi that
    by (rule_tac exI[of _ q], rule_tac exI[of _ e]) simp
  have dhi: "isDoubleInt (L + P)"
  proof (cases "q + 1 < 2 ^ 53")
    case True
    then show ?thesis unfolding isDoubleInt_def hL[symmetric] using qlo
      by (rule_tac exI[of _ "q + 1"], rule_tac exI[of _ e]) simp
  next
    case False
    with qhi have q1: "q + 1 = 2 ^ 53" by linarith
    have "(q + 1) * 2 ^ e = 2 ^ 52 * 2 ^ Suc e" unfolding q1 by (rule pow53_shift)
    moreover have "isDoubleInt (2 ^ 52 * 2 ^ Suc e)" by (rule isDoubleInt_pow52)
    ultimately show ?thesis unfolding hL by (simp only:)
  qed
  have ehi: "evenDouble (L + P)" if o: "odd q"
  proof (cases "q + 1 < 2 ^ 53")
    case True
    then show ?thesis unfolding evenDouble_def hL[symmetric] using qlo o
      by (rule_tac exI[of _ "q + 1"], rule_tac exI[of _ e]) simp
  next
    case False
    with qhi have q1: "q + 1 = 2 ^ 53" by linarith
    have "(q + 1) * 2 ^ e = 2 ^ 52 * 2 ^ Suc e" unfolding q1 by (rule pow53_shift)
    moreover have "evenDouble (2 ^ 52 * 2 ^ Suc e)"
      unfolding evenDouble_def by (rule exI[of _ "2 ^ 52"], rule exI[of _ "Suc e"]) simp
    ultimately show ?thesis unfolding hL by (simp only:)
  qed
  have sep: "m \<le> L \<or> L + P \<le> m" if "isDoubleInt m" for m
  proof -
    have "\<not> (q * 2 ^ e < m \<and> m < (q + 1) * 2 ^ e)"
      using no_double_between[OF that qlo, of e] by blast
    then show ?thesis unfolding hL by (simp add: L_def P_def) linarith
  qed
  have cond: "(2 * r > 2 ^ e \<or> (2 * r = 2 ^ e \<and> odd q)) = (2 * r > P \<or> (2 * r = P \<and> odd q))"
    by (simp add: P_def)
  have val: "roundHalfEven n = (if 2 * r > P \<or> (2 * r = P \<and> odd q) then L + P else L)"
  proof -
    have "roundHalfEven n =
        (if 2 * r > 2 ^ e \<or> (2 * r = 2 ^ e \<and> odd q) then (q + 1) * 2 ^ e else q * 2 ^ e)"
      using False unfolding roundHalfEven_def Let_def e_def q_def r_def by (simp only: if_False)
    then show ?thesis unfolding cond hL by (simp add: L_def P_def)
  qed
  consider (up) "2 * r > P" | (down) "2 * r < P" | (tieo) "2 * r = P" "odd q" | (tiee) "2 * r = P" "even q"
    by linarith
  then show ?thesis
  proof cases
    case up
    with val have v: "roundHalfEven n = L + P" by simp
    have "\<bar>n - (L + P)\<bar> < \<bar>n - m\<bar>" if "isDoubleInt m" "m \<noteq> L + P" for m
      using sep[OF that(1)] that(2) nL rP up by linarith
    with dhi show ?thesis unfolding roundsTo_def v by blast
  next
    case down
    with val have v: "roundHalfEven n = L" by simp
    have "\<bar>n - L\<bar> < \<bar>n - m\<bar>" if "isDoubleInt m" "m \<noteq> L" for m
      using sep[OF that(1)] that(2) nL rP down by linarith
    with dlo show ?thesis unfolding roundsTo_def v by blast
  next
    case tieo
    with val have v: "roundHalfEven n = L + P" by simp
    have "\<bar>n - (L + P)\<bar> < \<bar>n - m\<bar> \<or> \<bar>n - (L + P)\<bar> = \<bar>n - m\<bar>" if "isDoubleInt m" "m \<noteq> L + P" for m
      using sep[OF that(1)] that(2) nL rP tieo(1) by linarith
    with dhi ehi[OF tieo(2)] show ?thesis unfolding roundsTo_def v by blast
  next
    case tiee
    with val have v: "roundHalfEven n = L" by simp
    have "\<bar>n - L\<bar> < \<bar>n - m\<bar> \<or> \<bar>n - L\<bar> = \<bar>n - m\<bar>" if "isDoubleInt m" "m \<noteq> L" for m
      using sep[OF that(1)] that(2) nL rP tiee(1) by linarith
    with dlo elo[OF tiee(2)] show ?thesis unfolding roundsTo_def v by blast
  qed
qed

lemma roundsTo_order:
  assumes a: "roundsTo n m" and b: "roundsTo n m'" and lt: "m < m'"
  shows False
proof -
  from a have dm: "isDoubleInt m"
    and am: "\<And>z. isDoubleInt z \<Longrightarrow> z \<noteq> m \<Longrightarrow> \<bar>n - m\<bar> < \<bar>n - z\<bar> \<or> (\<bar>n - m\<bar> = \<bar>n - z\<bar> \<and> evenDouble m)"
    by (auto simp: roundsTo_def)
  from b have dm': "isDoubleInt m'"
    and bm: "\<And>z. isDoubleInt z \<Longrightarrow> z \<noteq> m' \<Longrightarrow> \<bar>n - m'\<bar> < \<bar>n - z\<bar> \<or> (\<bar>n - m'\<bar> = \<bar>n - z\<bar> \<and> evenDouble m')"
    by (auto simp: roundsTo_def)
  from lt have ne: "m' \<noteq> m" "m \<noteq> m'" by simp_all
  from am[OF dm' ne(1)] have 1: "\<bar>n - m\<bar> \<le> \<bar>n - m'\<bar>" by linarith
  from bm[OF dm ne(2)] have 2: "\<bar>n - m'\<bar> \<le> \<bar>n - m\<bar>" by linarith
  from 1 2 have eq: "\<bar>n - m\<bar> = \<bar>n - m'\<bar>" by linarith
  from am[OF dm' ne(1)] eq have em: "evenDouble m" by linarith
  from bm[OF dm ne(2)] eq have em': "evenDouble m'" by linarith
  from eq lt have mid: "m < n" "n < m'" "n - m = m' - n" by linarith+
  from em obtain q and e :: nat where m: "m = q * 2 ^ e" and q: "2 ^ 52 \<le> q" "q < 2 ^ 53" "even q"
    by (auto simp: evenDouble_def)
  from em' obtain q' and e' :: nat where m': "m' = q' * 2 ^ e'" and q': "2 ^ 52 \<le> q'" "q' < 2 ^ 53" "even q'"
    by (auto simp: evenDouble_def)
  have "odd (2 ^ 53 - 1 :: int)" by simp
  with q(3) have "q \<noteq> 2 ^ 53 - 1" by blast
  with q(2) have q1: "q + 1 < 2 ^ 53" by linarith
  have p: "(0::int) < 2 ^ e" by simp
  define d where "d = (q + 1) * 2 ^ e"
  have dd: "isDoubleInt d"
    unfolding isDoubleInt_def d_def using q(1) q1 by (rule_tac exI[of _ "q + 1"], rule_tac exI[of _ e]) simp
  have dm2: "d = m + 2 ^ e" by (simp add: d_def m algebra_simps)
  with p have dgt: "m < d" by linarith
  have n1: "\<not> d < m'"
  proof
    assume "d < m'"
    with mid dgt have "\<bar>n - d\<bar> < \<bar>n - m\<bar>" by linarith
    moreover from dgt have "d \<noteq> m" by simp
    ultimately show False using am[OF dd] by linarith
  qed
  have n2: "\<not> m' < d"
    using no_double_between[OF dm' q(1), of e] lt unfolding m d_def by blast
  from n1 n2 have "m' = d" by linarith
  then have eqq: "q' * 2 ^ e' = (q + 1) * 2 ^ e" by (simp add: m' d_def)
  show False
  proof (cases "e \<le> e'")
    case True
    then obtain j where j: "e' = e + j" using le_Suc_ex by blast
    from eqq have "(q' * 2 ^ j) * 2 ^ e = (q + 1) * 2 ^ e" unfolding j by (simp add: power_add)
    with p have "q' * 2 ^ j = q + 1" by simp
    moreover from q'(3) have "even (q' * 2 ^ j)" by simp
    moreover from q(3) have "odd (q + 1)" by simp
    ultimately show False by simp
  next
    case False
    then obtain j where j: "e = Suc (e' + j)" by (metis add_Suc_right less_imp_Suc_add not_le)
    have p': "(0::int) < 2 ^ e'" by simp
    from eqq have "q' * 2 ^ e' = ((q + 1) * 2 * 2 ^ j) * 2 ^ e'" unfolding j by (simp add: power_add)
    with p' have "q' = (q + 1) * 2 * 2 ^ j" by simp
    moreover have "(1::int) \<le> 2 ^ j" by simp
    moreover from q(1) have "0 < q + 1" by simp
    ultimately have "(q + 1) * 2 * 1 \<le> q'" using mult_left_mono[of 1 "2 ^ j" "(q + 1) * 2"] by simp
    with q(1) q'(2) show False by simp
  qed
qed

lemma roundsTo_unique: "roundsTo n m \<Longrightarrow> roundsTo n m' \<Longrightarrow> m' = m"
  using roundsTo_order[of n m m'] roundsTo_order[of n m' m] by (cases m m' rule: linorder_cases) auto


lemma decimalValue_nonneg: "list_all isDigit ds \<Longrightarrow> 0 \<le> decimalValue ds"
  unfolding decimalValue_def by (rule sum_nonneg) (simp add: list_all_length isDigit_def)

text \<open>
  Claim C7 fails as stated: a stored value that is not a number gives \<^verbatim>\<open>NaN\<close>, not zero.
\<close>

theorem corrupt_best_is_NaN:
  "bestInit [''snake-best'' \<mapsto> units ''abc''] ''snake-best'' = NaN \<and>
   bestInit [''snake-best'' \<mapsto> units ''abc''] ''snake-best'' \<noteq> Num 0"
  by (simp add: bestInit_def parseInt10_def leadingDigits_def afterSign_def isWhite_def isDigit_def
      units_def Let_def)

text \<open>
  Claim C7, amended. The best score at startup is zero when no value is stored or the
  stored value is the empty string. Any other stored value is given to \<^verbatim>\<open>parseInt(v, 10)\<close>,
  whose result is used as it is. Read the value as white space, an optional sign, the
  longest run of decimal digits and a rest, which every string allows. With no digit the
  best score is \<^verbatim>\<open>NaN\<close>. With digits that denote zero it is 0, and -0 after a minus sign.
  Otherwise it is the number the digits denote, rounded to the nearest double with ties to
  the even significand (so the number itself when it is below \<open>2 ^ 53\<close>), negated after a
  minus sign; when the rounded number reaches \<open>2 ^ 1024\<close> it is \<^verbatim>\<open>Infinity\<close>, or \<^verbatim>\<open>-Infinity\<close>
  after a minus sign.
\<close>

theorem bestInit_cases:
  "(storage key = None \<or> storage key = Some [] \<longrightarrow> bestInit storage key = Num 0) \<and>
   (\<forall>ws sg ds rest.
      storage key = Some (ws @ sg @ ds @ rest) \<and> ws @ sg @ ds @ rest \<noteq> [] \<and>
      parsedAs ws sg ds rest \<longrightarrow>
        (\<exists>m. roundsTo (decimalValue ds) m \<and> (\<forall>m'. roundsTo (decimalValue ds) m' \<longrightarrow> m' = m) \<and>
           bestInit storage key =
             (if ds = [] then NaN
              else if decimalValue ds = 0 then (if sg = [45] then NegZero else Num 0)
              else if 2 ^ 1024 \<le> m then (if sg = [45] then NegInf else PosInf)
              else Num (if sg = [45] then - m else m))) \<and>
        (ds \<noteq> [] \<and> 0 < decimalValue ds \<and> decimalValue ds < 2 ^ 53 \<longrightarrow>
           bestInit storage key = Num (if sg = [45] then - decimalValue ds else decimalValue ds))) \<and>
   (\<forall>v. \<exists>ws sg ds rest. v = ws @ sg @ ds @ rest \<and> parsedAs ws sg ds rest)"
proof -
  have 1: "storage key = None \<or> storage key = Some [] \<longrightarrow> bestInit storage key = Num 0"
    by (auto simp: bestInit_def)
  have 2: "(\<exists>m. roundsTo (decimalValue ds) m \<and> (\<forall>m'. roundsTo (decimalValue ds) m' \<longrightarrow> m' = m) \<and>
           bestInit storage key =
             (if ds = [] then NaN
              else if decimalValue ds = 0 then (if sg = [45] then NegZero else Num 0)
              else if 2 ^ 1024 \<le> m then (if sg = [45] then NegInf else PosInf)
              else Num (if sg = [45] then - m else m))) \<and>
        (ds \<noteq> [] \<and> 0 < decimalValue ds \<and> decimalValue ds < 2 ^ 53 \<longrightarrow>
           bestInit storage key = Num (if sg = [45] then - decimalValue ds else decimalValue ds))"
    if a: "storage key = Some (ws @ sg @ ds @ rest)" "ws @ sg @ ds @ rest \<noteq> []"
      "parsedAs ws sg ds rest" for ws sg ds rest
  proof -
    from parse_split[OF a(3)]
    have l: "leadingDigits (ws @ sg @ ds @ rest) = ds"
      and s: "ds \<noteq> [] \<Longrightarrow> fst (afterSign (dropWhile isWhite (ws @ sg @ ds @ rest))) = (sg = [45])"
      by simp_all
    define v where "v = ws @ sg @ ds @ rest"
    from a(1,2) have "storage key = Some v" "v \<noteq> []" by (simp_all add: v_def)
    then have "bestInit storage key = parseInt10 v" by (simp add: bestInit_def)
    then have b: "bestInit storage key = parseInt10 (ws @ sg @ ds @ rest)" by (simp only: v_def)
    from a(3) have "0 \<le> decimalValue ds" by (simp add: parsedAs_def decimalValue_nonneg)
    then have rt: "roundsTo (decimalValue ds) (roundHalfEven (decimalValue ds))"
      by (rule roundHalfEven_rounds)
    have un: "\<forall>m'. roundsTo (decimalValue ds) m' \<longrightarrow> m' = roundHalfEven (decimalValue ds)"
      using roundsTo_unique[OF rt] by blast
    have val: "bestInit storage key =
             (if ds = [] then NaN
              else if decimalValue ds = 0 then (if sg = [45] then NegZero else Num 0)
              else if 2 ^ 1024 \<le> roundHalfEven (decimalValue ds)
                   then (if sg = [45] then NegInf else PosInf)
              else Num (if sg = [45] then - roundHalfEven (decimalValue ds)
                        else roundHalfEven (decimalValue ds)))"
    proof (cases "ds = []")
      case True
      with l b show ?thesis by (simp add: parseInt10_def Let_def)
    next
      case False
      from s[OF False] l b False show ?thesis
        by (simp add: parseInt10_def Let_def digitsValue_decimal toNumber_def)
    qed
    have small: "bestInit storage key = Num (if sg = [45] then - decimalValue ds else decimalValue ds)"
      if c: "ds \<noteq> []" "0 < decimalValue ds" "decimalValue ds < 2 ^ 53"
    proof -
      from s[OF c(1)] l b c show ?thesis
        by (simp add: parseInt10_def Let_def digitsValue_decimal toNumber_safe)
    qed
    from rt un val small show ?thesis by blast
  qed
  have 3: "\<exists>ws sg ds rest. v = ws @ sg @ ds @ rest \<and> parsedAs ws sg ds rest" for v
    by (rule parsedAs_exists)
  from 1 2 3 show ?thesis by blast
qed


theorem bestInit_cases_witness:
  "bestInit Map.empty ''flappy-best'' = Num 0 \<and>
   bestInit [''flappy-best'' \<mapsto> units ''x12''] ''flappy-best'' = NaN \<and>
   bestInit [''flappy-best'' \<mapsto> units '' 42pts''] ''flappy-best'' = Num 42 \<and>
   bestInit [''flappy-best'' \<mapsto> [160, 45, 55]] ''flappy-best'' = Num (- 7) \<and>
   bestInit [''flappy-best'' \<mapsto> units ''-0''] ''flappy-best'' = NegZero \<and>
   bestInit [''flappy-best'' \<mapsto> units ''9007199254740993''] ''flappy-best'' =
     Num 9007199254740992 \<and>
   bestInit [''flappy-best'' \<mapsto> 49 # replicate 309 48] ''flappy-best'' = PosInf"
proof -
  have 1: "bestInit Map.empty ''flappy-best'' = Num 0"
    using bestInit_cases[of "Map.empty" "''flappy-best''"] by simp
  have 2: "bestInit [''flappy-best'' \<mapsto> units ''x12''] ''flappy-best'' = NaN"
    using bestInit_cases[of "[''flappy-best'' \<mapsto> units ''x12'']" "''flappy-best''",
        THEN conjunct2, THEN conjunct1, rule_format, of "[]" "[]" "[]" "units ''x12''"]
    by (auto simp: units_def parsedAs_def isWhite_def isDigit_def)
  have 3: "bestInit [''flappy-best'' \<mapsto> units '' 42pts''] ''flappy-best'' = Num 42"
    using bestInit_cases[of "[''flappy-best'' \<mapsto> units '' 42pts'']" "''flappy-best''",
        THEN conjunct2, THEN conjunct1, rule_format, of "[32]" "[]" "[52, 50]" "[112, 116, 115]"]
    by (auto simp: units_def parsedAs_def isWhite_def isDigit_def digitsValue_decimal[symmetric]
        digitsValue_def)
  have 4: "bestInit [''flappy-best'' \<mapsto> [160, 45, 55]] ''flappy-best'' = Num (- 7)"
    using bestInit_cases[of "[''flappy-best'' \<mapsto> [160, 45, 55]]" "''flappy-best''",
        THEN conjunct2, THEN conjunct1, rule_format, of "[160]" "[45]" "[55]" "[]"]
    by (auto simp: parsedAs_def isWhite_def isDigit_def digitsValue_decimal[symmetric]
        digitsValue_def)
  have 5: "bestInit [''flappy-best'' \<mapsto> units ''-0''] ''flappy-best'' = NegZero"
    using bestInit_cases[of "[''flappy-best'' \<mapsto> units ''-0'']" "''flappy-best''",
        THEN conjunct2, THEN conjunct1, rule_format, of "[]" "[45]" "[48]" "[]"]
    by (auto simp: units_def parsedAs_def isWhite_def isDigit_def digitsValue_decimal[symmetric]
        digitsValue_def)
  have 6: "bestInit [''flappy-best'' \<mapsto> units ''9007199254740993''] ''flappy-best'' =
     Num 9007199254740992"
  proof -
    define ds :: jsstring where "ds = [57,48,48,55,49,57,57,50,53,52,55,52,48,57,57,51]"
    have u: "units ''9007199254740993'' = [] @ [] @ ds @ []" unfolding ds_def by code_simp
    have p: "parsedAs [] [] ds []" unfolding ds_def by (simp add: parsedAs_def isDigit_def)
    have d: "decimalValue ds = 9007199254740993"
      unfolding ds_def by (simp add: digitsValue_decimal[symmetric] digitsValue_def)
    have r: "roundHalfEven 9007199254740993 = 9007199254740992" by code_simp
    from bestInit_cases[of "[''flappy-best'' \<mapsto> units ''9007199254740993'']" "''flappy-best''",
        THEN conjunct2, THEN conjunct1, rule_format, of "[]" "[]" ds "[]"] u p
    obtain m where m: "roundsTo (decimalValue ds) m"
        "\<forall>m'. roundsTo (decimalValue ds) m' \<longrightarrow> m' = m"
        "bestInit [''flappy-best'' \<mapsto> units ''9007199254740993''] ''flappy-best'' =
           (if ds = [] then NaN
            else if decimalValue ds = 0 then (if ([]::jsstring) = [45] then NegZero else Num 0)
            else if 2 ^ 1024 \<le> m then (if ([]::jsstring) = [45] then NegInf else PosInf)
            else Num (if ([]::jsstring) = [45] then - m else m))"
      by (auto simp: ds_def)
    from roundHalfEven_rounds[of "decimalValue ds"] m(2) d r have "m = 9007199254740992" by auto
    with m(3) d show ?thesis by (simp add: ds_def)
  qed
  have 7: "bestInit [''flappy-best'' \<mapsto> 49 # replicate 309 48] ''flappy-best'' = PosInf"
  proof -
    define ds :: jsstring where "ds = 49 # replicate 309 48"
    have p: "parsedAs [] [] ds []"
      unfolding ds_def by (simp add: parsedAs_def isDigit_def list_all_iff)
    have "digitsValue ds = 10 ^ 309" unfolding ds_def by code_simp
    then have d: "decimalValue ds = 10 ^ 309" by (simp add: digitsValue_decimal)
    have r: "2 ^ 1024 \<le> roundHalfEven (10 ^ 309)" by code_simp
    have ne: "ds \<noteq> []" by (simp add: ds_def)
    from bestInit_cases[of "[''flappy-best'' \<mapsto> 49 # replicate 309 48]" "''flappy-best''",
        THEN conjunct2, THEN conjunct1, rule_format, of "[]" "[]" ds "[]"] p
    obtain m where m: "roundsTo (decimalValue ds) m"
        "\<forall>m'. roundsTo (decimalValue ds) m' \<longrightarrow> m' = m"
        "bestInit [''flappy-best'' \<mapsto> 49 # replicate 309 48] ''flappy-best'' =
           (if ds = [] then NaN
            else if decimalValue ds = 0 then (if ([]::jsstring) = [45] then NegZero else Num 0)
            else if 2 ^ 1024 \<le> m then (if ([]::jsstring) = [45] then NegInf else PosInf)
            else Num (if ([]::jsstring) = [45] then - m else m))"
      by (auto simp: ds_def)
    from roundHalfEven_rounds[of "decimalValue ds"] m(2) d have "m = roundHalfEven (10 ^ 309)" by auto
    with r have "2 ^ 1024 \<le> m" by simp
    with m(3) d ne show ?thesis by simp
  qed
  from 1 2 3 4 5 6 7 show ?thesis by blast
qed

section \<open>Flappy Bird: the flap impulse\<close>

text \<open>
  Claim C9. A flap in the ready or the playing state leaves the bird with the velocity
  \<open>FLAP_STRENGTH = -7.5\<close>, whatever its velocity was, and the game in the playing state.
\<close>

theorem flap_sets_velocity:
  assumes "flappyState fl = FlappyReady \<or> flappyState fl = FlappyPlaying"
  shows "velocity (bird (flap canvas fl)) = FLAP_STRENGTH \<and> FLAP_STRENGTH = - (15 / 2) \<and>
         flappyState (flap canvas fl) = FlappyPlaying"
  using assms by (auto simp: flap_def FLAP_STRENGTH_def)

theorem flap_sets_velocity_witness:
  "velocity (bird flappyFalling) = 63 / 10 \<and>
   velocity (bird (flap (Some (400, 600)) flappyFalling)) = - (15 / 2)"
proof -
  have h: "flappyState flappyFalling = FlappyReady \<or> flappyState flappyFalling = FlappyPlaying"
    by (simp add: flappyFalling_def)
  from flap_sets_velocity[OF h, of "Some (400, 600)"] show ?thesis
    by (simp add: flappyFalling_def)
qed

section \<open>Pixel Runner: generation reaches the lookahead\<close>

lemma genLoop_post:
  "genLoop w h s gy st us = Some (st', us') \<Longrightarrow>
     fst st' \<ge> w + SPAWN_AHEAD \<and>
     (fst st' = fst st \<and> fst (snd st') = fst (snd st) \<or>
      (\<exists>p\<in>set (fst (snd st')). platX p + platW p = fst st'))"
proof (induction w h s gy st us rule: genLoop.induct)
  case (1 w h s gy st us)
  show ?case
  proof (cases "fst st < w + SPAWN_AHEAD")
    case False
    with "1.prems" show ?thesis by (simp add: genLoop.simps)
  next
    case True
    with "1.prems" obtain st1 us1 where g: "genOne h s gy st us = Some (st1, us1)"
      and r: "genLoop w h s gy st1 us1 = Some (st', us')"
      by (subst (asm) genLoop.simps) (auto split: option.splits)
    from g have e: "\<exists>p\<in>set (fst (snd st1)). platX p + platW p = fst st1"
      by (auto simp: genOne_def Let_def split: prod.splits list.splits option.splits)
    from "1.IH"[OF True g refl r]
    have ih: "fst st' \<ge> w + SPAWN_AHEAD"
      "fst st' = fst st1 \<and> fst (snd st') = fst (snd st1) \<or>
       (\<exists>p\<in>set (fst (snd st')). platX p + platW p = fst st')"
      by simp_all
    from ih(2) e have "\<exists>p\<in>set (fst (snd st')). platX p + platW p = fst st'" by auto
    with ih(1) show ?thesis by simp
  qed
qed

lemma initLoop_post:
  "initLoop cw ch s gy st us = Some (st', us') \<Longrightarrow>
     fst st' \<ge> cw + SPAWN_AHEAD \<and>
     (st' = st \<or> (\<exists>p\<in>set (snd st'). platX p + platW p = fst st'))"
proof (induction cw ch s gy st us rule: initLoop.induct)
  case (1 cw ch s gy st us)
  show ?case
  proof (cases "fst st < cw + SPAWN_AHEAD")
    case False
    with "1.prems" show ?thesis by (simp add: initLoop.simps)
  next
    case True
    with "1.prems" obtain u1 u2 u3 us1 where us: "us = u1 # u2 # u3 # us1"
      by (subst (asm) initLoop.simps) (auto split: list.splits)
    let ?p = "newPlatform ch s gy (fst st) u1 u2 u3"
    let ?st1 = "(platX ?p + platW ?p, snd st @ [?p])"
    from "1.prems" True us have r: "initLoop cw ch s gy ?st1 us1 = Some (st', us')"
      by (subst (asm) initLoop.simps) (simp add: Let_def)
    from "1.IH"[OF True us refl refl refl r]
    have ih: "fst st' \<ge> cw + SPAWN_AHEAD"
      "st' = ?st1 \<or> (\<exists>p\<in>set (snd st'). platX p + platW p = fst st')"
      by simp_all
    from ih(2) have "\<exists>p\<in>set (snd st'). platX p + platW p = fst st'" by auto
    with ih(1) show ?thesis by simp
  qed
qed

lemma fold_edge_cases:
  "fold (\<lambda>p lr. if platX p + platW p > lr then platX p + platW p else lr) ps a = a \<or>
   (\<exists>p\<in>set ps. platX p + platW p =
      fold (\<lambda>p lr. if platX p + platW p > lr then platX p + platW p else lr) ps a)"
proof (induction ps arbitrary: a)
  case Nil
  then show ?case by simp
next
  case (Cons q ps)
  let ?a = "if platX q + platW q > a then platX q + platW q else a"
  from Cons[of ?a] show ?case by (auto split: if_splits)
qed

lemma lastRightOf_cases:
  "lastRightOf ps = 0 \<or> (\<exists>p\<in>set ps. platX p + platW p = lastRightOf ps)"
  unfolding lastRightOf_def by (rule fold_edge_cases)

lemma unitDraws_drop: "unitDraws us \<Longrightarrow> unitDraws (drop k us)"
  unfolding unitDraws_def list_all_iff using set_drop_subset[of k us] by blast

lemma maybeCoin_total:
  assumes "3 \<le> length us"
  shows "\<exists>cs' us'. maybeCoin s p cs us = Some (cs', us') \<and> length us \<le> length us' + 3 \<and>
           (unitDraws us \<longrightarrow> unitDraws us')"
proof -
  from assms obtain u a b us2 where us: "us = u # a # b # us2"
    by (cases us; cases "tl us"; cases "tl (tl us)") auto
  show ?thesis unfolding maybeCoin_def us by (auto simp: unitDraws_def)
qed

lemma maybeObstacle_total:
  assumes "5 \<le> length us"
  shows "\<exists>os' us'. maybeObstacle s p os us = Some (os', us') \<and> length us \<le> length us' + 5 \<and>
           (unitDraws us \<longrightarrow> unitDraws us')"
proof -
  from assms obtain u k a b c us5 where us: "us = u # k # a # b # c # us5"
    by (cases us; cases "tl us"; cases "tl (tl us)"; cases "tl (tl (tl us))";
        cases "tl (tl (tl (tl us)))") auto
  show ?thesis unfolding maybeObstacle_def us by (auto simp: unitDraws_def)
qed

lemma rand_lower: "0 \<le> u \<Longrightarrow> lo \<le> hi \<Longrightarrow> lo \<le> rand lo hi u"
  by (simp add: rand_def)

lemma genOne_progress:
  assumes "11 \<le> length us" "unitDraws us" "gapMin s \<le> gapMax s" "platWidthMin s \<le> platWidthMax s"
  shows "\<exists>st' us'. genOne h s gy st us = Some (st', us') \<and> length us \<le> length us' + 11 \<and>
           unitDraws us' \<and> fst st + gapMin s + platWidthMin s \<le> fst st'"
proof -
  obtain lastRight ps cs os where st: "st = (lastRight, ps, cs, os)" by (cases st) auto
  from assms(1) obtain u1 u2 u3 us1 where us: "us = u1 # u2 # u3 # us1"
    by (cases us; cases "tl us"; cases "tl (tl us)") auto
  let ?p = "newPlatform h s gy lastRight u1 u2 u3"
  have l1: "8 \<le> length us1" using assms(1) us by simp
  then have "3 \<le> length us1" by simp
  have ud1: "unitDraws us1" using assms(2) us by (simp add: unitDraws_def)
  from maybeCoin_total[OF \<open>3 \<le> length us1\<close>, of s ?p cs] ud1
  obtain cs' us2 where c: "maybeCoin s ?p cs us1 = Some (cs', us2)"
    and l2: "length us1 \<le> length us2 + 3" and ud2: "unitDraws us2" by blast
  from l1 l2 have "5 \<le> length us2" by simp
  from maybeObstacle_total[OF this, of s ?p os] ud2
  obtain os' us3 where ob: "maybeObstacle s ?p os us2 = Some (os', us3)"
    and l3: "length us2 \<le> length us3 + 5" and u3: "unitDraws us3" by blast
  have g: "genOne h s gy st us = Some ((platX ?p + platW ?p, ps @ [?p], cs', os'), us3)"
    unfolding genOne_def st us using c ob by (simp add: Let_def)
  have "0 \<le> u1" "0 \<le> u2" using assms(2) us by (simp_all add: unitDraws_def)
  then have "gapMin s \<le> rand (gapMin s) (gapMax s) u1"
    "platWidthMin s \<le> rand (platWidthMin s) (platWidthMax s) u2"
    using assms(3,4) by (simp_all add: rand_lower)
  then have "lastRight + gapMin s + platWidthMin s \<le> platX ?p + platW ?p"
    by (simp add: newPlatform_def)
  with g u3 l2 l3 us st show ?thesis by simp
qed

lemma genLoop_total:
  assumes "gapMin s \<le> gapMax s" "platWidthMin s \<le> platWidthMax s"
    and "0 < gapMin s + platWidthMin s"
  shows "11 * k \<le> length us \<Longrightarrow> unitDraws us \<Longrightarrow>
         w + SPAWN_AHEAD - fst st \<le> of_nat k * (gapMin s + platWidthMin s) \<Longrightarrow>
         \<exists>r. genLoop w h s gy st us = Some r"
proof (induction k arbitrary: st us)
  case 0
  then have "\<not> fst st < w + SPAWN_AHEAD" by simp
  then show ?case by (intro exI[of _ "(st, us)"]) (simp add: genLoop.simps)
next
  case (Suc k)
  show ?case
  proof (cases "fst st < w + SPAWN_AHEAD")
    case False
    then show ?thesis by (intro exI[of _ "(st, us)"]) (simp add: genLoop.simps)
  next
    case True
    from Suc.prems(1) have "11 \<le> length us" by simp
    from genOne_progress[OF this Suc.prems(2) assms(1,2), of h gy st]
    obtain st1 us1 where g: "genOne h s gy st us = Some (st1, us1)"
      and l: "length us \<le> length us1 + 11" and u: "unitDraws us1"
      and p: "fst st + gapMin s + platWidthMin s \<le> fst st1" by blast
    from l Suc.prems(1) have l1: "11 * k \<le> length us1" by simp
    have "of_nat (Suc k) * (gapMin s + platWidthMin s) =
            of_nat k * (gapMin s + platWidthMin s) + (gapMin s + platWidthMin s)"
      by (simp add: algebra_simps)
    with Suc.prems(3) p
    have "w + SPAWN_AHEAD - fst st1 \<le> of_nat k * (gapMin s + platWidthMin s)" by simp
    from Suc.IH[OF l1 u this] obtain r where "genLoop w h s gy st1 us1 = Some r" by blast
    with True g show ?thesis by (subst genLoop.simps) simp
  qed
qed

lemma initLoop_total:
  assumes "gapMin s \<le> gapMax s" "platWidthMin s \<le> platWidthMax s"
    and "0 < gapMin s + platWidthMin s"
  shows "3 * k \<le> length us \<Longrightarrow> unitDraws us \<Longrightarrow>
         cw + SPAWN_AHEAD - fst st \<le> of_nat k * (gapMin s + platWidthMin s) \<Longrightarrow>
         \<exists>r. initLoop cw ch s gy st us = Some r"
proof (induction k arbitrary: st us)
  case 0
  then have "\<not> fst st < cw + SPAWN_AHEAD" by simp
  then show ?case by (intro exI[of _ "(st, us)"]) (simp add: initLoop.simps)
next
  case (Suc k)
  show ?case
  proof (cases "fst st < cw + SPAWN_AHEAD")
    case False
    then show ?thesis by (intro exI[of _ "(st, us)"]) (simp add: initLoop.simps)
  next
    case True
    from Suc.prems(1) obtain u1 u2 u3 us1 where us: "us = u1 # u2 # u3 # us1"
      by (cases us; cases "tl us"; cases "tl (tl us)") auto
    let ?p = "newPlatform ch s gy (fst st) u1 u2 u3"
    let ?st1 = "(platX ?p + platW ?p, snd st @ [?p])"
    from Suc.prems(1) us have l1: "3 * k \<le> length us1" by simp
    have u: "unitDraws us1" using Suc.prems(2) us by (simp add: unitDraws_def)
    have "0 \<le> u1" "0 \<le> u2" using Suc.prems(2) us by (simp_all add: unitDraws_def)
    then have "gapMin s \<le> rand (gapMin s) (gapMax s) u1"
      "platWidthMin s \<le> rand (platWidthMin s) (platWidthMax s) u2"
      using assms(1,2) by (simp_all add: rand_lower)
    then have p: "fst st + gapMin s + platWidthMin s \<le> fst ?st1"
      by (simp add: newPlatform_def)
    have "of_nat (Suc k) * (gapMin s + platWidthMin s) =
            of_nat k * (gapMin s + platWidthMin s) + (gapMin s + platWidthMin s)"
      by (simp add: algebra_simps)
    with Suc.prems(3) p
    have "cw + SPAWN_AHEAD - fst ?st1 \<le> of_nat k * (gapMin s + platWidthMin s)" by simp
    from Suc.IH[OF l1 u this] obtain r where "initLoop cw ch s gy ?st1 us1 = Some r" by blast
    with True us show ?thesis by (subst initLoop.simps) (simp add: Let_def)
  qed
qed

text \<open>
  Claim C8. On a canvas of width \<open>w \<ge> 0\<close>, whenever the initial generation of \<^verbatim>\<open>initGame\<close>
  or the generation pass of a playing frame returns, some generated platform ends at or
  beyond \<open>w + SPAWN_AHEAD\<close>. Both passes do return when the settings give every new
  platform a positive advance (\<open>gapMin + platWidthMin > 0\<close>, with each minimum at most its
  maximum), the draws lie in \<open>[0, 1)\<close>, and there are 11 draws for each of the \<open>k\<close>
  platforms that at most are needed to cover \<open>w + SPAWN_AHEAD\<close>.
\<close>

theorem generation_reaches_lookahead:
  assumes "0 \<le> w"
  shows "(\<forall>ps us'. initPlatforms w h s us = Some (ps, us') \<longrightarrow> reaches w ps) \<and>
         (\<forall>game' us'. generateAhead w h s game us = Some (game', us') \<longrightarrow>
            reaches w (platforms game')) \<and>
         (gapMin s \<le> gapMax s \<and> platWidthMin s \<le> platWidthMax s \<and>
          0 < gapMin s + platWidthMin s \<and> unitDraws us \<and>
          w + SPAWN_AHEAD \<le> of_nat k * (gapMin s + platWidthMin s) \<and> 11 * k \<le> length us \<longrightarrow>
            (\<exists>ps us'. initPlatforms w h s us = Some (ps, us')) \<and>
            (\<exists>game' us'. generateAhead w h s game us = Some (game', us')))"
proof -
  let ?gy = "of_int \<lfloor>h * (75 / 100)\<rfloor> :: rat"
  let ?st0 = "(300 :: rat, [\<lparr>platX = 0, platY = ?gy, platW = 300\<rparr>])"
  let ?g0 = "(lastRightOf (platforms game), platforms game, coins game, obstacles game)"
  have 1: "reaches w ps" if "initPlatforms w h s us = Some (ps, us')" for ps us'
  proof -
    from that obtain lr where il: "initLoop w h s ?gy ?st0 us = Some ((lr, ps), us')"
      by (auto simp: initPlatforms_def Let_def split: option.splits)
    from initLoop_post[OF il] have ige: "lr \<ge> w + SPAWN_AHEAD"
      and "(lr, ps) = ?st0 \<or> (\<exists>p\<in>set ps. platX p + platW p = lr)" by simp_all
    then obtain p0 where p0: "p0 \<in> set ps" "platX p0 + platW p0 = lr" by auto
    from ige p0(2) have "w + SPAWN_AHEAD \<le> platX p0 + platW p0" by simp
    with p0(1) show ?thesis unfolding reaches_def list_ex_iff by blast
  qed
  have 2: "reaches w (platforms game')" if "generateAhead w h s game us = Some (game', us')"
    for game' us'
  proof -
    from that obtain lr ps cs os where
      gl: "genLoop w h s (groundY game) ?g0 us = Some ((lr, ps, cs, os), us')"
      and g': "platforms game' = ps"
      by (auto simp: generateAhead_def split: option.splits)
    from genLoop_post[OF gl]
    have ge: "lr \<ge> w + SPAWN_AHEAD"
      and cs: "lr = lastRightOf (platforms game) \<and> ps = platforms game \<or>
               (\<exists>p\<in>set ps. platX p + platW p = lr)" by simp_all
    have pos: "0 < w + SPAWN_AHEAD" using assms by (simp add: SPAWN_AHEAD_def)
    have "\<exists>p\<in>set ps. platX p + platW p = lr"
    proof (cases "\<exists>p\<in>set ps. platX p + platW p = lr")
      case True
      then show ?thesis .
    next
      case False
      with cs have e: "lr = lastRightOf (platforms game)" "ps = platforms game" by simp_all
      with ge pos have "lastRightOf (platforms game) \<noteq> 0" by simp
      with lastRightOf_cases[of "platforms game"] e show ?thesis by simp
    qed
    then obtain p1 where p1: "p1 \<in> set ps" "platX p1 + platW p1 = lr" by auto
    from ge p1(2) have "w + SPAWN_AHEAD \<le> platX p1 + platW p1" by simp
    with p1(1) g' show ?thesis unfolding reaches_def list_ex_iff by blast
  qed
  have 3: "(\<exists>ps us'. initPlatforms w h s us = Some (ps, us')) \<and>
           (\<exists>game' us'. generateAhead w h s game us = Some (game', us'))"
    if a: "gapMin s \<le> gapMax s" "platWidthMin s \<le> platWidthMax s"
      "0 < gapMin s + platWidthMin s" "unitDraws us"
      "w + SPAWN_AHEAD \<le> of_nat k * (gapMin s + platWidthMin s)" "11 * k \<le> length us"
  proof -
    have i0: "w + SPAWN_AHEAD - fst ?st0 \<le> of_nat k * (gapMin s + platWidthMin s)"
      using a(5) by simp
    have "3 * k \<le> length us" using a(6) by simp
    from initLoop_total[OF a(1,2,3) this a(4) i0, of h ?gy]
    obtain st' us' where il: "initLoop w h s ?gy ?st0 us = Some (st', us')" by (metis surj_pair)
    then have i: "\<exists>ps us'. initPlatforms w h s us = Some (ps, us')"
      by (cases st') (simp add: initPlatforms_def Let_def)
    have lr0: "0 \<le> lastRightOf ps" for ps
    proof -
      have "a \<le> fold (\<lambda>p lr. if platX p + platW p > lr then platX p + platW p else lr) ps a"
        for a
      proof (induction ps arbitrary: a)
        case Nil
        then show ?case by simp
      next
        case (Cons q ps)
        let ?a = "if platX q + platW q > a then platX q + platW q else a"
        have "a \<le> ?a" by simp
        also have "?a \<le> fold (\<lambda>p lr. if platX p + platW p > lr then platX p + platW p else lr) ps ?a"
          by (rule Cons)
        finally show ?case by simp
      qed
      then show ?thesis by (simp add: lastRightOf_def)
    qed
    have g0: "w + SPAWN_AHEAD - fst ?g0 \<le> of_nat k * (gapMin s + platWidthMin s)"
      using a(5) lr0[of "platforms game"] by simp
    from genLoop_total[OF a(1,2,3) a(6) a(4) g0, of h "groundY game"]
    obtain gst us2 where gl: "genLoop w h s (groundY game) ?g0 us = Some (gst, us2)"
      by (metis surj_pair)
    then have "\<exists>game' us'. generateAhead w h s game us = Some (game', us')"
      by (cases gst) (auto simp: generateAhead_def)
    with i show ?thesis by simp
  qed
  from 1 2 3 show ?thesis by blast
qed

theorem generation_reaches_lookahead_witness:
  "(\<exists>ps us'. initPlatforms 800 600 RUNNER_medium (replicate 99 (1 / 2)) = Some (ps, us') \<and>
      reaches 800 ps) \<and>
   (\<exists>game' us'. generateAhead 800 600 RUNNER_medium runnerStart (replicate 99 (1 / 2)) =
      Some (game', us') \<and> reaches 800 (platforms game'))"
proof -
  have w: "(0::rat) \<le> 800" by simp
  have h: "gapMin RUNNER_medium \<le> gapMax RUNNER_medium \<and>
      platWidthMin RUNNER_medium \<le> platWidthMax RUNNER_medium \<and>
      0 < gapMin RUNNER_medium + platWidthMin RUNNER_medium \<and>
      unitDraws (replicate 99 (1 / 2)) \<and>
      800 + SPAWN_AHEAD \<le> of_nat 9 * (gapMin RUNNER_medium + platWidthMin RUNNER_medium) \<and>
      11 * 9 \<le> length (replicate 99 (1 / 2 :: rat))"
    by (simp add: RUNNER_medium_def unitDraws_def SPAWN_AHEAD_def list_all_iff)
  from generation_reaches_lookahead[OF w, of 600 RUNNER_medium "replicate 99 (1 / 2)" runnerStart 9] h
  show ?thesis by blast
qed

end
